theory Spec2Isabelle
  imports Main
begin

section \<open>The lock-free stack of \<^verbatim>\<open>lock_free_stack.h\<close>\<close>

text \<open>
  The class \<^verbatim>\<open>LockFreeStack<T>\<close> is a singly linked list of heap nodes whose top is the
  atomic pointer \<^verbatim>\<open>head\<close>.  A pop counts itself in \<^verbatim>\<open>threads_in_pop\<close>, detaches the top
  node and hands it to \<^verbatim>\<open>try_reclaim\<close>, which frees it at once or parks it on the list
  \<^verbatim>\<open>to_be_deleted\<close>.

  The embedding is sequential: one call runs from entry to exit on an explicit state.
  The state holds the three atomics and the memory the nodes live in.  The only
  interference that is modelled is the one the source itself names in \<^verbatim>\<open>try_reclaim\<close>
  (line 24): other threads that enter \<^verbatim>\<open>pop\<close> between the test of the counter and its
  decrement.  Their number is the parameter \<open>entered\<close> of \<^verbatim>\<open>try_reclaim\<close> and \<^verbatim>\<open>pop\<close>;
  a call on a single thread has \<open>entered = 0\<close>.
\<close>

subsection \<open>Nodes, pointers and the state\<close>

type_synonym addr = nat

text \<open>
  \<^verbatim>\<open>struct node { std::shared_ptr<T> data; node *next; }\<close>.  A pointer is an
  \<open>addr option\<close> with \<open>None\<close> for \<^verbatim>\<open>nullptr\<close>; the shared pointer is an \<open>'a option\<close>
  with \<open>None\<close> for the empty handle.
\<close>

record 'a node =
  data :: "'a option"
  "next" :: "addr option"

text \<open>
  The memory is an arena of cells: \<open>heap ! a = None\<close> is a free cell and \<open>Some n\<close> a live
  node at address \<open>a\<close>.  Its length is the capacity of the allocator.  The fields
  \<open>allocated\<close> and \<open>freed\<close> count the calls of \<^verbatim>\<open>new node\<close> and of \<^verbatim>\<open>delete\<close> on a node;
  they are instrumentation, the code never reads them.
\<close>

record 'a stack =
  head :: "addr option"
  to_be_deleted :: "addr option"
  threads_in_pop :: int
  heap :: "'a node option list"
  allocated :: nat
  freed :: nat

text \<open>
  What ends a call early: \<^verbatim>\<open>std::bad_alloc\<close> from \<^verbatim>\<open>new\<close>, a dereference of
  \<^verbatim>\<open>nullptr\<close>, a dereference or \<^verbatim>\<open>delete\<close> of a pointer to a free cell, and a loop that
  never ends.  An error carries the state in which it was raised.
\<close>

datatype error = AllocationFailure | NullDereference | InvalidPointer | NonTermination

type_synonym ('a, 'r) result = "(error \<times> 'a stack) + ('r \<times> 'a stack)"

type_synonym 'a update = "(error \<times> 'a stack) + 'a stack"

subsection \<open>Memory operations\<close>

definition lookup :: "'a node option list \<Rightarrow> addr \<Rightarrow> 'a node option" where
  "lookup h a = (if a < length h then h ! a else None)"

text \<open>Reading a field through a pointer, \<^verbatim>\<open>p->...\<close>.\<close>

definition load :: "addr option \<Rightarrow> 'a stack \<Rightarrow> (error \<times> 'a stack) + 'a node" where
  "load p s =
     (case p of
        None \<Rightarrow> Inl (NullDereference, s)
      | Some a \<Rightarrow>
          (case lookup (heap s) a of
             None \<Rightarrow> Inl (InvalidPointer, s)
           | Some n \<Rightarrow> Inr n))"

text \<open>\<^verbatim>\<open>p->next = q\<close>.\<close>

definition store_next :: "addr option \<Rightarrow> addr option \<Rightarrow> 'a stack \<Rightarrow> 'a update" where
  "store_next p q s =
     (case p of
        None \<Rightarrow> Inl (NullDereference, s)
      | Some a \<Rightarrow>
          (case lookup (heap s) a of
             None \<Rightarrow> Inl (InvalidPointer, s)
           | Some n \<Rightarrow> Inr (s\<lparr>heap := (heap s)[a := Some (n\<lparr>next := q\<rparr>)]\<rparr>)))"

text \<open>
  \<^verbatim>\<open>new node(data_)\<close> (lines 79 and 98): the allocator hands out the first free cell and
  throws when there is none; the constructor stores a fresh handle to a copy of the value
  and a null \<^verbatim>\<open>next\<close>.  The storage \<^verbatim>\<open>make_shared\<close> takes for the value is part of the
  same allocation.
\<close>

definition alloc_addr :: "'a node option list \<Rightarrow> addr option" where
  "alloc_addr h = find (\<lambda>a. h ! a = None) [0..<length h]"

definition alloc_node :: "'a \<Rightarrow> 'a stack \<Rightarrow> ('a, addr) result" where
  "alloc_node v s =
     (case alloc_addr (heap s) of
        None \<Rightarrow> Inl (AllocationFailure, s)
      | Some a \<Rightarrow>
          Inr (a, s\<lparr>heap := (heap s)[a := Some \<lparr>data = Some v, next = None\<rparr>],
                     allocated := Suc (allocated s)\<rparr>))"

text \<open>\<^verbatim>\<open>delete p\<close>: nothing for \<^verbatim>\<open>nullptr\<close>, a fault for a cell that is not live.\<close>

definition delete_node :: "addr option \<Rightarrow> 'a stack \<Rightarrow> 'a update" where
  "delete_node p s =
     (case p of
        None \<Rightarrow> Inr s
      | Some a \<Rightarrow>
          (case lookup (heap s) a of
             None \<Rightarrow> Inl (InvalidPointer, s)
           | Some n \<Rightarrow> Inr (s\<lparr>heap := (heap s)[a := None], freed := Suc (freed s)\<rparr>)))"

definition live_cells :: "'a node option list \<Rightarrow> nat" where
  "live_cells h = length (filter (\<lambda>c. c \<noteq> None) h)"

lemma live_cells_free:
  "a < length h \<Longrightarrow> h ! a \<noteq> None \<Longrightarrow> live_cells (h[a := None]) < live_cells h"
proof (induction h arbitrary: a)
  case Nil
  then show ?case by simp
next
  case (Cons c h)
  show ?case
  proof (cases a)
    case 0
    with Cons.prems show ?thesis by (simp add: live_cells_def)
  next
    case (Suc b)
    with Cons.prems have "live_cells (h[b := None]) < live_cells h"
      by (intro Cons.IH) simp_all
    with Suc show ?thesis by (simp add: live_cells_def)
  qed
qed

lemma delete_node_live_cells:
  "delete_node (Some a) s = Inr s' \<Longrightarrow> live_cells (heap s') < live_cells (heap s)"
  by (auto simp: delete_node_def lookup_def live_cells_free split: option.splits if_splits)

subsection \<open>The reclamation manager\<close>

text \<open>
  \<^verbatim>\<open>delete_nodes\<close> (lines 63 to 71): free a chain, reading \<^verbatim>\<open>next\<close> before each
  \<^verbatim>\<open>delete\<close>.  Every round frees a live cell or faults, so the loop ends.
\<close>

function delete_nodes :: "addr option \<Rightarrow> 'a stack \<Rightarrow> 'a update" where
  "delete_nodes nodes s =
     (case nodes of
        None \<Rightarrow> Inr s
      | Some a \<Rightarrow>
          (case load nodes s of
             Inl e \<Rightarrow> Inl e
           | Inr n \<Rightarrow>
               (case delete_node (Some a) s of
                  Inl e \<Rightarrow> Inl e
                | Inr s' \<Rightarrow> delete_nodes (next n) s')))"
  by pat_completeness auto
termination
  by (relation "measure (\<lambda>(nodes, s). live_cells (heap s))")
     (auto simp: delete_node_live_cells)

declare delete_nodes.simps [simp del]

text \<open>
  \<^verbatim>\<open>chain_pending_nodes(node *first, node *last)\<close> (lines 50 to 55).  The store into
  \<^verbatim>\<open>last->next\<close> is followed by the compare-and-swap loop: the exchange succeeds when
  \<^verbatim>\<open>to_be_deleted\<close> still equals \<^verbatim>\<open>last->next\<close>; otherwise \<^verbatim>\<open>last->next\<close> is reloaded
  with the current value and the loop goes round again.  A spurious failure of
  \<^verbatim>\<open>compare_exchange_weak\<close> repeats a round with the same values and is left out, here
  and in the loops of \<^verbatim>\<open>push\<close> and \<^verbatim>\<open>pop\<close>.
\<close>

function chain_loop :: "addr option \<Rightarrow> addr option \<Rightarrow> 'a stack \<Rightarrow> 'a update" where
  "chain_loop first last' s =
     (case load last' s of
        Inl e \<Rightarrow> Inl e
      | Inr n \<Rightarrow>
          if to_be_deleted s = next n then Inr (s\<lparr>to_be_deleted := first\<rparr>)
          else (case store_next last' (to_be_deleted s) s of
                  Inl e \<Rightarrow> Inl e
                | Inr s' \<Rightarrow> chain_loop first last' s'))"
  by pat_completeness auto
termination
  by (relation "measure (\<lambda>(first, last', s).
        case load last' s of Inl e \<Rightarrow> 0 | Inr n \<Rightarrow> if to_be_deleted s = next n then 0 else 1)")
     (auto simp: load_def store_next_def lookup_def split: option.splits if_splits)

declare chain_loop.simps [simp del]

definition chain_pending_nodes_range :: "addr option \<Rightarrow> addr option \<Rightarrow> 'a stack \<Rightarrow> 'a update" where
  "chain_pending_nodes_range first last' s =
     (case store_next last' (to_be_deleted s) s of
        Inl e \<Rightarrow> Inl e
      | Inr s' \<Rightarrow> chain_loop first last' s')"

text \<open>
  The walk to the tail in \<^verbatim>\<open>chain_pending_nodes(node *nodes)\<close> (lines 42 to 46).  On a
  cyclic chain the loop of the source never ends.  A chain without a cycle has at most
  as many nodes as the arena has cells, so the walk gets one round more than that and
  reports \<open>NonTermination\<close> when they are used up.
\<close>

fun walk_to_last :: "nat \<Rightarrow> addr option \<Rightarrow> 'a stack \<Rightarrow> ('a, addr option) result" where
  "walk_to_last 0 last' s = Inl (NonTermination, s)"
| "walk_to_last (Suc fuel) last' s =
     (case load last' s of
        Inl e \<Rightarrow> Inl e
      | Inr n \<Rightarrow>
          (case next n of
             None \<Rightarrow> Inr (last', s)
           | Some b \<Rightarrow> walk_to_last fuel (Some b) s))"

definition chain_pending_nodes :: "addr option \<Rightarrow> 'a stack \<Rightarrow> 'a update" where
  "chain_pending_nodes nodes s =
     (case walk_to_last (Suc (length (heap s))) nodes s of
        Inl e \<Rightarrow> Inl e
      | Inr (last', s') \<Rightarrow> chain_pending_nodes_range nodes last' s')"

text \<open>
  \<^verbatim>\<open>chain_pending_nodes(node *one)\<close> (lines 57 to 60), the second definition of a function
  with this name and this parameter type.
\<close>

definition chain_pending_nodes_one :: "addr option \<Rightarrow> 'a stack \<Rightarrow> 'a update" where
  "chain_pending_nodes_one one s = chain_pending_nodes_range one one s"

text \<open>
  \<^verbatim>\<open>try_reclaim\<close> (lines 17 to 38).  Its two calls \<^verbatim>\<open>chain_pending_nodes(nodes_to_delete)\<close>
  (line 30) and \<^verbatim>\<open>chain_pending_nodes(old_head)\<close> (line 35) have the same name and the same
  argument type, so they call the same function: the one of line 40, which walks to the
  tail.  The second definition with this signature (line 57, above as
  \<open>chain_pending_nodes_one\<close>) comes after it and is never the one called.

  Between the exchange of line 22 and the decrement of line 24, \<open>entered\<close> other
  threads increment the counter at their entry to \<^verbatim>\<open>pop\<close>.  The counter is an \<^verbatim>\<open>int\<close> of
  the source; it counts threads and stays far from the bounds of that type, so it is an
  unbounded integer here.
\<close>

definition try_reclaim :: "nat \<Rightarrow> addr option \<Rightarrow> 'a stack \<Rightarrow> 'a update" where
  "try_reclaim entered old_head s =
     (if threads_in_pop s = 1 then
        (case delete_node old_head s of
           Inl e \<Rightarrow> Inl e
         | Inr s1 \<Rightarrow>
             let nodes_to_delete = to_be_deleted s1;
                 s2 = s1\<lparr>to_be_deleted := None\<rparr>;
                 s3 = s2\<lparr>threads_in_pop := threads_in_pop s2 + int entered\<rparr>;
                 s4 = s3\<lparr>threads_in_pop := threads_in_pop s3 - 1\<rparr>
             in if threads_in_pop s4 = 0 then delete_nodes nodes_to_delete s4
                else if nodes_to_delete \<noteq> None then chain_pending_nodes nodes_to_delete s4
                else Inr s4)
      else
        (case chain_pending_nodes old_head s of
           Inl e \<Rightarrow> Inl e
         | Inr s1 \<Rightarrow> Inr (s1\<lparr>threads_in_pop := threads_in_pop s1 - 1\<rparr>)))"

subsection \<open>The stack core\<close>

text \<open>
  The constructor (lines 84 to 88) initialises \<^verbatim>\<open>head\<close> with \<^verbatim>\<open>nullptr\<close> and nothing else.
  The members \<^verbatim>\<open>threads_in_pop\<close> and \<^verbatim>\<open>to_be_deleted\<close> (lines 14 and 15) have no
  initialiser, and the default constructor of \<^verbatim>\<open>std::atomic\<close> gives them none before
  C++20: they keep what the storage of the object happens to hold.  The argument of the
  constructor is the state it finds: the memory, and for the members of the object the
  content of its storage.  The two lines of output are no part of the state.
\<close>

definition LockFreeStack :: "'a stack \<Rightarrow> 'a stack" where
  "LockFreeStack raw = raw\<lparr>head := None\<rparr>"

text \<open>
  Storage for a new object in a memory of \<open>capacity\<close> free cells, where the bytes of the
  counter read as \<open>counter\<close> and those of the pointers as \<open>pointer\<close>.  Zeroed storage,
  \<open>storage capacity 0 None\<close>, is what an object of static storage duration gets, and what
  C++20 gives the two members.
\<close>

definition storage :: "nat \<Rightarrow> int \<Rightarrow> addr option \<Rightarrow> 'a stack" where
  "storage capacity counter pointer =
     \<lparr>head = pointer, to_be_deleted = pointer, threads_in_pop = counter,
      heap = replicate capacity None, allocated = 0, freed = 0\<rparr>"

text \<open>
  \<^verbatim>\<open>push\<close> (lines 96 to 103): the compare-and-swap loop on \<^verbatim>\<open>head\<close> with
  \<^verbatim>\<open>new_node->next\<close> as the expected value.
\<close>

function push_loop :: "addr \<Rightarrow> 'a stack \<Rightarrow> 'a update" where
  "push_loop new_node s =
     (case load (Some new_node) s of
        Inl e \<Rightarrow> Inl e
      | Inr n \<Rightarrow>
          if head s = next n then Inr (s\<lparr>head := Some new_node\<rparr>)
          else (case store_next (Some new_node) (head s) s of
                  Inl e \<Rightarrow> Inl e
                | Inr s' \<Rightarrow> push_loop new_node s'))"
  by pat_completeness auto
termination
  by (relation "measure (\<lambda>(new_node, s).
        case load (Some new_node) s of Inl e \<Rightarrow> 0 | Inr n \<Rightarrow> if head s = next n then 0 else 1)")
     (auto simp: load_def store_next_def lookup_def split: option.splits if_splits)

declare push_loop.simps [simp del]

definition push :: "'a \<Rightarrow> 'a stack \<Rightarrow> ('a, unit) result" where
  "push v s =
     (case alloc_node v s of
        Inl e \<Rightarrow> Inl e
      | Inr (new_node, s1) \<Rightarrow>
          (case store_next (Some new_node) (head s1) s1 of
             Inl e \<Rightarrow> Inl e
           | Inr s2 \<Rightarrow>
               (case push_loop new_node s2 of
                  Inl e \<Rightarrow> Inl e
                | Inr s3 \<Rightarrow> Inr ((), s3))))"

text \<open>
  \<^verbatim>\<open>pop\<close> (lines 105 to 117).  The loop of line 110 reads \<^verbatim>\<open>old_head->next\<close> and swaps
  \<^verbatim>\<open>head\<close> when it still equals \<^verbatim>\<open>old_head\<close>; a failed exchange reloads \<^verbatim>\<open>old_head\<close>.
\<close>

function detach_loop :: "addr option \<Rightarrow> 'a stack \<Rightarrow> ('a, addr option) result" where
  "detach_loop old_head s =
     (case old_head of
        None \<Rightarrow> Inr (None, s)
      | Some a \<Rightarrow>
          (case load old_head s of
             Inl e \<Rightarrow> Inl e
           | Inr n \<Rightarrow>
               if head s = old_head then Inr (old_head, s\<lparr>head := next n\<rparr>)
               else detach_loop (head s) s))"
  by pat_completeness auto
termination
  by (relation "measure (\<lambda>(old_head, s). if head s = old_head then 0 else 1)") auto

declare detach_loop.simps [simp del]

text \<open>\<^verbatim>\<open>if (old_head) res.swap(old_head->data)\<close> with \<^verbatim>\<open>res\<close> empty (lines 112 to 114).\<close>

definition swap_data :: "addr option \<Rightarrow> 'a stack \<Rightarrow> ('a, 'a option) result" where
  "swap_data old_head s =
     (case old_head of
        None \<Rightarrow> Inr (None, s)
      | Some a \<Rightarrow>
          (case load old_head s of
             Inl e \<Rightarrow> Inl e
           | Inr n \<Rightarrow> Inr (data n, s\<lparr>heap := (heap s)[a := Some (n\<lparr>data := None\<rparr>)]\<rparr>)))"

definition pop :: "nat \<Rightarrow> 'a stack \<Rightarrow> ('a, 'a option) result" where
  "pop entered s =
     (let s1 = s\<lparr>threads_in_pop := threads_in_pop s + 1\<rparr>
      in case detach_loop (head s1) s1 of
           Inl e \<Rightarrow> Inl e
         | Inr (old_head, s2) \<Rightarrow>
             (case swap_data old_head s2 of
                Inl e \<Rightarrow> Inl e
              | Inr (res, s3) \<Rightarrow>
                  (case try_reclaim entered old_head s3 of
                     Inl e \<Rightarrow> Inl e
                   | Inr s4 \<Rightarrow> Inr (res, s4))))"

subsection \<open>Teardown\<close>

lemma delete_nodes_None: "delete_nodes None s = Inr s"
  by (subst delete_nodes.simps) simp

lemma detach_loop_None: "detach_loop None s = Inr (None, s)"
  by (subst detach_loop.simps) simp

definition holds_value :: "'a node option \<Rightarrow> bool" where
  "holds_value c = (case c of None \<Rightarrow> False | Some n \<Rightarrow> data n \<noteq> None)"

definition held :: "'a node option list \<Rightarrow> nat" where
  "held h = length (filter holds_value h)"

lemma held_update:
  "a < length h \<Longrightarrow>
   held (h[a := c]) + (if holds_value (h ! a) then 1 else 0) =
   held h + (if holds_value c then 1 else 0)"
proof (induction h arbitrary: a)
  case Nil
  then show ?case by simp
next
  case (Cons x h)
  show ?case
  proof (cases a)
    case 0
    then show ?thesis by (simp add: held_def)
  next
    case (Suc b)
    with Cons.prems have "b < length h" by simp
    from Cons.IH [OF this] Suc show ?thesis by (simp add: held_def)
  qed
qed

lemma held_update_same:
  assumes "lookup h a = Some n" and "holds_value (Some m) = holds_value (Some n)"
  shows "held (h[a := Some m]) = held h"
proof -
  from assms(1) have "a < length h" and "h ! a = Some n"
    by (simp_all add: lookup_def split: if_splits)
  with held_update [of a h "Some m"] assms(2) show ?thesis
    by (simp split: if_splits)
qed

lemma held_update_drop:
  assumes "lookup h a = Some n" and "\<not> holds_value c"
  shows "held (h[a := c]) \<le> held h"
    and "holds_value (Some n) \<Longrightarrow> held (h[a := c]) < held h"
proof -
  from assms(1) have *: "a < length h" "h ! a = Some n"
    by (simp_all add: lookup_def split: if_splits)
  show "held (h[a := c]) \<le> held h"
    using held_update [of a h c] * assms(2) by (simp split: if_splits)
  show "held (h[a := c]) < held h" if "holds_value (Some n)"
    using held_update [of a h c] * assms(2) that by simp
qed

lemma store_next_held: "store_next p q s = Inr s' \<Longrightarrow> held (heap s') = held (heap s)"
  by (auto simp: store_next_def holds_value_def split: option.splits intro!: held_update_same)

lemma delete_node_held: "delete_node p s = Inr s' \<Longrightarrow> held (heap s') \<le> held (heap s)"
  by (auto simp: delete_node_def holds_value_def split: option.splits intro!: held_update_drop(1))

lemma delete_nodes_held: "delete_nodes p s = Inr s' \<Longrightarrow> held (heap s') \<le> held (heap s)"
proof (induction p s rule: delete_nodes.induct)
  case (1 nodes s)
  show ?case
  proof (cases nodes)
    case None
    with "1.prems" show ?thesis by (simp add: delete_nodes_None)
  next
    case (Some a)
    from "1.prems" Some obtain n s1 where n: "load nodes s = Inr n"
      and d: "delete_node (Some a) s = Inr s1" and r: "delete_nodes (next n) s1 = Inr s'"
      by (subst (asm) delete_nodes.simps) (auto split: sum.splits)
    from "1.IH" [OF Some n d r] delete_node_held [OF d] show ?thesis by simp
  qed
qed

lemma chain_loop_held: "chain_loop first l s = Inr s' \<Longrightarrow> held (heap s') = held (heap s)"
proof (induction first l s rule: chain_loop.induct)
  case (1 first l s)
  from "1.prems" obtain n where n: "load l s = Inr n"
    by (subst (asm) chain_loop.simps) (auto split: sum.splits)
  show ?case
  proof (cases "to_be_deleted s = next n")
    case True
    with "1.prems" n show ?thesis
      by (subst (asm) chain_loop.simps) auto
  next
    case False
    with "1.prems" n obtain s1 where st: "store_next l (to_be_deleted s) s = Inr s1"
      and r: "chain_loop first l s1 = Inr s'"
      by (subst (asm) chain_loop.simps) (auto split: sum.splits)
    from "1.IH" [OF n False st r] store_next_held [OF st] show ?thesis by simp
  qed
qed

lemma chain_pending_nodes_range_held:
  "chain_pending_nodes_range first l s = Inr s' \<Longrightarrow> held (heap s') = held (heap s)"
  by (auto simp: chain_pending_nodes_range_def split: sum.splits
      dest!: store_next_held chain_loop_held)

lemma walk_to_last_state: "walk_to_last fuel p s = Inr (l, s') \<Longrightarrow> s' = s"
  by (induction fuel p s rule: walk_to_last.induct) (auto split: sum.splits option.splits)

lemma chain_pending_nodes_held:
  assumes "chain_pending_nodes p s = Inr s'"
  shows "held (heap s') = held (heap s)"
proof -
  from assms obtain l s1 where w: "walk_to_last (Suc (length (heap s))) p s = Inr (l, s1)"
    and c: "chain_pending_nodes_range p l s1 = Inr s'"
    unfolding chain_pending_nodes_def by (auto split: sum.splits)
  from walk_to_last_state [OF w] chain_pending_nodes_range_held [OF c] show ?thesis
    by simp
qed

lemma try_reclaim_held: "try_reclaim k old s = Inr s' \<Longrightarrow> held (heap s') \<le> held (heap s)"
proof (cases "threads_in_pop s = 1")
  case False
  assume "try_reclaim k old s = Inr s'"
  with False show ?thesis
    by (auto simp: try_reclaim_def split: sum.splits dest!: chain_pending_nodes_held)
next
  case True
  assume t: "try_reclaim k old s = Inr s'"
  with True obtain s1 where d: "delete_node old s = Inr s1"
    by (auto simp: try_reclaim_def split: sum.splits)
  let ?s4 = "s1\<lparr>to_be_deleted := None, threads_in_pop := threads_in_pop s1 + int k - 1\<rparr>"
  from t True d have
    "delete_nodes (to_be_deleted s1) ?s4 = Inr s' \<or>
     chain_pending_nodes (to_be_deleted s1) ?s4 = Inr s' \<or> s' = ?s4"
    by (auto simp: try_reclaim_def Let_def split: if_splits)
  then have "held (heap s') \<le> held (heap s1)"
    by (auto dest!: delete_nodes_held chain_pending_nodes_held)
  with delete_node_held [OF d] show ?thesis by simp
qed

lemma detach_loop_heap: "detach_loop p s = Inr (old, s') \<Longrightarrow> heap s' = heap s"
proof (induction p s rule: detach_loop.induct)
  case (1 p s)
  show ?case
  proof (cases p)
    case None
    with "1.prems" show ?thesis by (simp add: detach_loop_None)
  next
    case (Some a)
    with "1.prems" obtain n where n: "load p s = Inr n"
      by (subst (asm) detach_loop.simps) (auto split: sum.splits)
    show ?thesis
    proof (cases "head s = p")
      case True
      with "1.prems" Some n show ?thesis
        by (subst (asm) detach_loop.simps) auto
    next
      case False
      with "1.prems" Some n have "detach_loop (head s) s = Inr (old, s')"
        by (subst (asm) detach_loop.simps) auto
      with "1.IH" [OF Some n False] show ?thesis by simp
    qed
  qed
qed

lemma swap_data_held:
  assumes "swap_data old s = Inr (r, s')"
  shows "held (heap s') \<le> held (heap s)" and "r \<noteq> None \<Longrightarrow> held (heap s') < held (heap s)"
proof -
  show "held (heap s') \<le> held (heap s)"
    using assms
    by (auto simp: swap_data_def load_def holds_value_def split: option.splits
        intro!: held_update_drop(1))
  show "held (heap s') < held (heap s)" if "r \<noteq> None"
    using assms that
    by (auto simp: swap_data_def load_def holds_value_def split: option.splits
        intro!: held_update_drop(2))
qed

lemma pop_held:
  assumes "pop k s = Inr (Some v, s')"
  shows "held (heap s') < held (heap s)"
proof -
  let ?s1 = "s\<lparr>threads_in_pop := threads_in_pop s + 1\<rparr>"
  from assms obtain old s2 s3 where d: "detach_loop (head ?s1) ?s1 = Inr (old, s2)"
    and w: "swap_data old s2 = Inr (Some v, s3)" and t: "try_reclaim k old s3 = Inr s'"
    by (auto simp: pop_def Let_def split: sum.splits)
  from detach_loop_heap [OF d] swap_data_held(2) [OF w] try_reclaim_held [OF t]
  show ?thesis by simp
qed

text \<open>
  The destructor (lines 90 to 94), \<^verbatim>\<open>while (pop());\<close>: pop until the result is the
  empty handle.  It runs when no other thread uses the stack, so nobody enters a pop
  meanwhile.  Every round that goes on has taken a value out of a node, so the number of
  nodes that hold a value is a measure for the loop.
\<close>

function destroy :: "'a stack \<Rightarrow> 'a update" where
  "destroy s =
     (case pop 0 s of
        Inl e \<Rightarrow> Inl e
      | Inr (res, s') \<Rightarrow>
          (case res of
             None \<Rightarrow> Inr s'
           | Some v \<Rightarrow> destroy s'))"
  by pat_completeness auto
termination
  by (relation "measure (\<lambda>s. held (heap s))") (auto simp: pop_held)

declare destroy.simps [simp del]


subsection \<open>Callers on one thread\<close>

text \<open>A thread that pushes the values of a list in order, and one that pops \<open>n\<close> times.\<close>

fun pushes :: "'a list \<Rightarrow> 'a stack \<Rightarrow> ('a, unit) result" where
  "pushes [] s = Inr ((), s)"
| "pushes (v # vs) s =
     (case push v s of
        Inl e \<Rightarrow> Inl e
      | Inr (u, s') \<Rightarrow> pushes vs s')"

fun pops :: "nat \<Rightarrow> 'a stack \<Rightarrow> ('a, 'a option list) result" where
  "pops 0 s = Inr ([], s)"
| "pops (Suc n) s =
     (case pop 0 s of
        Inl e \<Rightarrow> Inl e
      | Inr (r, s') \<Rightarrow>
          (case pops n s' of
             Inl e \<Rightarrow> Inl e
           | Inr (rs, s'') \<Rightarrow> Inr (r # rs, s'')))"

text \<open>The state a call leaves behind, whether it returns or raises.\<close>

fun final_state :: "('a, 'r) result \<Rightarrow> 'a stack" where
  "final_state (Inl (e, s)) = s"
| "final_state (Inr (r, s)) = s"

subsection \<open>Lists in the heap and the invariant\<close>

text \<open>
  \<open>path h p as\<close>: following \<^verbatim>\<open>next\<close> from the pointer \<open>p\<close> visits exactly the live
  nodes at the addresses \<open>as\<close> and ends in \<^verbatim>\<open>nullptr\<close>.
\<close>

fun path :: "'a node option list \<Rightarrow> addr option \<Rightarrow> addr list \<Rightarrow> bool" where
  "path h p [] = (p = None)"
| "path h p (a # as) =
     (p = Some a \<and> (case lookup h a of None \<Rightarrow> False | Some n \<Rightarrow> path h (next n) as))"

definition main_list :: "'a stack \<Rightarrow> addr list \<Rightarrow> bool" where
  "main_list s ms = path (heap s) (head s) ms"

definition pending_list :: "'a stack \<Rightarrow> addr list \<Rightarrow> bool" where
  "pending_list s ps = path (heap s) (to_be_deleted s) ps"

text \<open>
  \<open>visits h p as\<close>: following \<^verbatim>\<open>next\<close> from \<open>p\<close> goes through the live nodes \<open>as\<close>,
  wherever it goes after them.
\<close>

fun visits :: "'a node option list \<Rightarrow> addr option \<Rightarrow> addr list \<Rightarrow> bool" where
  "visits h p [] = True"
| "visits h p (a # as) =
     (p = Some a \<and> (case lookup h a of None \<Rightarrow> False | Some n \<Rightarrow> visits h (next n) as))"

definition cell_data :: "'a node option list \<Rightarrow> addr \<Rightarrow> 'a option" where
  "cell_data h a = (case lookup h a of None \<Rightarrow> None | Some n \<Rightarrow> data n)"

text \<open>
  The invariant of section 3 of the specification, for a main list \<open>ms\<close> and a
  pending-deletion list \<open>ps\<close>: no node is on both lists (nor twice on one), every node of
  the main list holds a value, every node of the pending list has given its value away.
\<close>

definition stack_inv :: "'a stack \<Rightarrow> addr list \<Rightarrow> addr list \<Rightarrow> bool" where
  "stack_inv s ms ps \<longleftrightarrow>
     main_list s ms \<and> pending_list s ps \<and> distinct (ms @ ps) \<and>
     list_all (\<lambda>a. cell_data (heap s) a \<noteq> None) ms \<and>
     list_all (\<lambda>a. cell_data (heap s) a = None) ps"

definition invariant :: "'a stack \<Rightarrow> bool" where
  "invariant s \<longleftrightarrow> (\<exists>ms ps. stack_inv s ms ps)"

text \<open>
  No node is out of reach: every live cell is on one of the two lists, and the counters
  of \<^verbatim>\<open>new\<close> and \<^verbatim>\<open>delete\<close> differ by the number of nodes on the lists.
\<close>

definition no_leak :: "'a stack \<Rightarrow> addr list \<Rightarrow> addr list \<Rightarrow> bool" where
  "no_leak s ms ps \<longleftrightarrow>
     list_all (\<lambda>a. lookup (heap s) a = None \<or> a \<in> set (ms @ ps)) [0..<length (heap s)] \<and>
     allocated s = freed s + length ms + length ps"

definition well_formed :: "'a stack \<Rightarrow> bool" where
  "well_formed s \<longleftrightarrow> (\<exists>ms ps. stack_inv s ms ps \<and> no_leak s ms ps)"

definition free_cells :: "addr list \<Rightarrow> 'a node option list \<Rightarrow> 'a node option list" where
  "free_cells as h = fold (\<lambda>a h. h[a := None]) as h"

text \<open>
  What the top node holds and points to, and the top node as a list of at most one
  address: what a pop is about to return, to leave as the new head, and to detach.
\<close>

definition top_value :: "'a stack \<Rightarrow> 'a option" where
  "top_value s = (case head s of None \<Rightarrow> None | Some a \<Rightarrow> cell_data (heap s) a)"

definition below_top :: "'a stack \<Rightarrow> addr option" where
  "below_top s =
     (case head s of
        None \<Rightarrow> None
      | Some a \<Rightarrow> (case lookup (heap s) a of None \<Rightarrow> None | Some n \<Rightarrow> next n))"

definition top_cell :: "'a stack \<Rightarrow> addr list" where
  "top_cell s = (case head s of None \<Rightarrow> [] | Some a \<Rightarrow> [a])"


subsection \<open>Example states\<close>

text \<open>
  States on which the theorems below are tried.  In \<open>quiescent_example\<close> no pop is in
  flight, the main list is \<open>1, 0\<close> and two nodes wait on the pending-deletion list.
  \<open>contended_example\<close> has the same main list, one pending node and one other pop in
  flight; \<open>spliced_example\<close> is what a pop makes of it.  \<open>relink_example\<close> is the state
  \<^verbatim>\<open>try_reclaim\<close> finds when the only pop in flight has detached node \<open>0\<close> and two nodes
  are pending.  \<open>parked_example\<close> is an empty stack with one pending node.

  \<open>crossed_example\<close> comes from zeroed storage by two pushes and two pops that overlap:
  both pops enter, the first detaches node 1 and the second node 0, both find the counter
  at two, the first chains from node 1 (and walks on to node 0, where \<^verbatim>\<open>next\<close> of node 1
  still points), the second chains node 0, both decrement.

  The states \<open>unset_\<dots>\<close> are met when the counter bytes of the storage read 7: after a
  push of 1 and after the pop that follows, after pushes of 1, 2, 3 and after two pops.
\<close>

definition quiescent_example :: "nat stack" where
  "quiescent_example =
     \<lparr>head = Some 1, to_be_deleted = Some 2, threads_in_pop = 0,
      heap = [Some \<lparr>data = Some 5, next = None\<rparr>, Some \<lparr>data = Some 7, next = Some 0\<rparr>,
              Some \<lparr>data = None, next = Some 3\<rparr>, Some \<lparr>data = None, next = None\<rparr>, None],
      allocated = 9, freed = 5\<rparr>"

definition contended_example :: "nat stack" where
  "contended_example =
     \<lparr>head = Some 1, to_be_deleted = Some 2, threads_in_pop = 1,
      heap = [Some \<lparr>data = Some 5, next = None\<rparr>, Some \<lparr>data = Some 7, next = Some 0\<rparr>,
              Some \<lparr>data = None, next = None\<rparr>, None],
      allocated = 3, freed = 0\<rparr>"


definition spliced_example :: "nat stack" where
  "spliced_example =
     \<lparr>head = Some 0, to_be_deleted = Some 1, threads_in_pop = 1,
      heap = [Some \<lparr>data = Some 5, next = Some 2\<rparr>, Some \<lparr>data = None, next = Some 0\<rparr>,
              Some \<lparr>data = None, next = None\<rparr>, None],
      allocated = 3, freed = 0\<rparr>"

definition crossed_example :: "nat stack" where
  "crossed_example =
     \<lparr>head = None, to_be_deleted = Some 0, threads_in_pop = 0,
      heap = [Some \<lparr>data = None, next = Some 1\<rparr>, Some \<lparr>data = None, next = Some 0\<rparr>],
      allocated = 2, freed = 0\<rparr>"

definition unset_one_pushed :: "nat stack" where
  "unset_one_pushed =
     \<lparr>head = Some 0, to_be_deleted = None, threads_in_pop = 7,
      heap = [Some \<lparr>data = Some 1, next = None\<rparr>], allocated = 1, freed = 0\<rparr>"

definition unset_one_popped :: "nat stack" where
  "unset_one_popped =
     \<lparr>head = None, to_be_deleted = Some 0, threads_in_pop = 7,
      heap = [Some \<lparr>data = None, next = None\<rparr>], allocated = 1, freed = 0\<rparr>"

definition unset_three_pushed :: "nat stack" where
  "unset_three_pushed =
     \<lparr>head = Some 2, to_be_deleted = None, threads_in_pop = 7,
      heap = [Some \<lparr>data = Some 1, next = None\<rparr>, Some \<lparr>data = Some 2, next = Some 0\<rparr>,
              Some \<lparr>data = Some 3, next = Some 1\<rparr>],
      allocated = 3, freed = 0\<rparr>"

definition unset_two_popped :: "nat stack" where
  "unset_two_popped =
     \<lparr>head = Some 0, to_be_deleted = Some 1, threads_in_pop = 7,
      heap = [Some \<lparr>data = Some 1, next = Some 2\<rparr>, Some \<lparr>data = None, next = Some 0\<rparr>,
              Some \<lparr>data = None, next = Some 1\<rparr>],
      allocated = 3, freed = 0\<rparr>"


section \<open>Properties of the operations\<close>

subsection \<open>Memory and loops\<close>

lemma lookup_Some_less: "lookup h a = Some n \<Longrightarrow> a < length h"
  by (simp add: lookup_def split: if_splits)

lemma lookup_update:
  "lookup (h[a := c]) b = (if b = a \<and> a < length h then c else lookup h b)"
  by (simp add: lookup_def)

lemma lookup_update_None:
  "lookup (h[a := None]) b = (if b = a then None else lookup h b)"
  by (simp add: lookup_def)

lemma load_None: "load None s = Inl (NullDereference, s)"
  by (simp add: load_def)

lemma load_Some: "lookup (heap s) a = Some n \<Longrightarrow> load (Some a) s = Inr n"
  by (simp add: load_def)

lemma store_next_Some:
  "lookup (heap s) a = Some n \<Longrightarrow>
   store_next (Some a) q s = Inr (s\<lparr>heap := (heap s)[a := Some (n\<lparr>next := q\<rparr>)]\<rparr>)"
  by (simp add: store_next_def)

lemma delete_node_Some:
  "lookup (heap s) a = Some n \<Longrightarrow>
   delete_node (Some a) s = Inr (s\<lparr>heap := (heap s)[a := None], freed := Suc (freed s)\<rparr>)"
  by (simp add: delete_node_def)

lemma chain_loop_hit:
  "lookup (heap s) a = Some n \<Longrightarrow> next n = to_be_deleted s \<Longrightarrow>
   chain_loop first (Some a) s = Inr (s\<lparr>to_be_deleted := first\<rparr>)"
  by (subst chain_loop.simps) (simp add: load_Some)

lemma chain_pending_nodes_range_Some:
  assumes "lookup (heap s) a = Some n"
  shows "chain_pending_nodes_range first (Some a) s =
     Inr (s\<lparr>heap := (heap s)[a := Some (n\<lparr>next := to_be_deleted s\<rparr>)], to_be_deleted := first\<rparr>)"
proof -
  let ?s1 = "s\<lparr>heap := (heap s)[a := Some (n\<lparr>next := to_be_deleted s\<rparr>)]\<rparr>"
  have st: "store_next (Some a) (to_be_deleted s) s = Inr ?s1"
    by (rule store_next_Some [OF assms])
  have l1: "lookup (heap ?s1) a = Some (n\<lparr>next := to_be_deleted s\<rparr>)"
    using lookup_Some_less [OF assms] by (simp add: lookup_update)
  have "chain_loop first (Some a) ?s1 = Inr (?s1\<lparr>to_be_deleted := first\<rparr>)"
    by (rule chain_loop_hit [OF l1]) simp
  with st show ?thesis by (simp add: chain_pending_nodes_range_def)
qed

lemma push_loop_hit:
  "lookup (heap s) a = Some n \<Longrightarrow> next n = head s \<Longrightarrow>
   push_loop a s = Inr (s\<lparr>head := Some a\<rparr>)"
  by (subst push_loop.simps) (simp add: load_Some)

lemma detach_loop_head:
  "head s = Some a \<Longrightarrow> lookup (heap s) a = Some n \<Longrightarrow>
   detach_loop (head s) s = Inr (Some a, s\<lparr>head := next n\<rparr>)"
  by (subst detach_loop.simps) (simp add: load_Some)

lemma alloc_addr_Some: "alloc_addr h = Some a \<Longrightarrow> a < length h \<and> h ! a = None"
  by (auto simp: alloc_addr_def find_Some_iff)

lemma alloc_addr_None: "alloc_addr h = None \<longleftrightarrow> (\<forall>a<length h. h ! a \<noteq> None)"
  by (auto simp: alloc_addr_def find_None_iff)

lemma push_eq:
  "push v s =
     (case alloc_addr (heap s) of
        None \<Rightarrow> Inl (AllocationFailure, s)
      | Some a \<Rightarrow>
          Inr ((), s\<lparr>heap := (heap s)[a := Some \<lparr>data = Some v, next = head s\<rparr>],
                      allocated := Suc (allocated s), head := Some a\<rparr>))"
proof (cases "alloc_addr (heap s)")
  case None
  then show ?thesis by (simp add: push_def alloc_node_def)
next
  case (Some a)
  then have a: "a < length (heap s)" by (simp add: alloc_addr_Some)
  let ?s1 = "s\<lparr>heap := (heap s)[a := Some \<lparr>data = Some v, next = None\<rparr>],
                allocated := Suc (allocated s)\<rparr>"
  have l1: "lookup (heap ?s1) a = Some \<lparr>data = Some v, next = None\<rparr>"
    using a by (simp add: lookup_update)
  let ?s2 = "?s1\<lparr>heap := (heap ?s1)[a := Some \<lparr>data = Some v, next = head ?s1\<rparr>]\<rparr>"
  have st: "store_next (Some a) (head ?s1) ?s1 = Inr ?s2"
    using store_next_Some [OF l1, of "head ?s1"] by simp
  have l2: "lookup (heap ?s2) a = Some \<lparr>data = Some v, next = head s\<rparr>"
    using a by (simp add: lookup_update)
  have pl: "push_loop a ?s2 = Inr (?s2\<lparr>head := Some a\<rparr>)"
    by (rule push_loop_hit [OF l2]) simp
  show ?thesis
    using Some st pl by (simp add: push_def alloc_node_def)
qed


subsection \<open>Lists in the heap\<close>

lemma path_live: "path h p as \<Longrightarrow> a \<in> set as \<Longrightarrow> lookup h a \<noteq> None"
  by (induction as arbitrary: p) (auto split: option.splits)

lemma path_frame:
  "path h p as \<Longrightarrow> (\<And>a. a \<in> set as \<Longrightarrow> lookup h' a = lookup h a) \<Longrightarrow> path h' p as"
  by (induction as arbitrary: p) (auto split: option.splits)

lemma path_Some:
  "path h (Some a) as \<Longrightarrow> \<exists>n bs. as = a # bs \<and> lookup h a = Some n \<and> path h (next n) bs"
  by (cases as) (auto split: option.splits)

lemma path_bounded: "path h p as \<Longrightarrow> a \<in> set as \<Longrightarrow> a < length h"
  using path_live [of h p as a] by (auto simp: lookup_def split: if_splits)

lemma distinct_bounded_length:
  assumes "distinct as" and "\<And>a. a \<in> set as \<Longrightarrow> a < n"
  shows "length as \<le> n"
proof -
  have "card (set as) \<le> card {..<n}"
    by (rule card_mono) (use assms in auto)
  with assms(1) show ?thesis by (simp add: distinct_card)
qed

lemma path_length: "path h p as \<Longrightarrow> distinct as \<Longrightarrow> length as \<le> length h"
  by (rule distinct_bounded_length) (auto intro: path_bounded)

lemma length_free_cells [simp]: "length (free_cells as h) = length h"
  unfolding free_cells_def by (induction as arbitrary: h) auto

lemma free_cells_Nil [simp]: "free_cells [] h = h"
  by (simp add: free_cells_def)

lemma free_cells_Cons [simp]: "free_cells (a # as) h = free_cells as (h[a := None])"
  by (simp add: free_cells_def)

lemma lookup_free_cells:
  "lookup (free_cells as h) b = (if b \<in> set as then None else lookup h b)"
proof (induction as arbitrary: h)
  case Nil
  then show ?case by simp
next
  case (Cons a as)
  have "lookup (h[a := None]) a = None"
    by (simp add: lookup_def)
  then show ?case
    by (simp add: Cons.IH lookup_update)
qed

lemma delete_nodes_path:
  "path (heap s) p ps \<Longrightarrow> distinct ps \<Longrightarrow>
   delete_nodes p s =
     Inr (s\<lparr>heap := free_cells ps (heap s), freed := freed s + length ps\<rparr>)"
proof (induction ps arbitrary: p s)
  case Nil
  then show ?case by (simp add: delete_nodes_None)
next
  case (Cons a ps)
  from Cons.prems(1) obtain n where p: "p = Some a" and n: "lookup (heap s) a = Some n"
    and rest: "path (heap s) (next n) ps"
    by (auto split: option.splits)
  let ?s' = "s\<lparr>heap := (heap s)[a := None], freed := Suc (freed s)\<rparr>"
  from Cons.prems(2) have a: "a \<notin> set ps" and d: "distinct ps" by simp_all
  have "path (heap ?s') (next n) ps"
    using rest by (rule path_frame) (use a in \<open>auto simp: lookup_update\<close>)
  then have "delete_nodes (next n) ?s' =
      Inr (?s'\<lparr>heap := free_cells ps (heap ?s'), freed := freed ?s' + length ps\<rparr>)"
    using d by (rule Cons.IH)
  then show ?case
    using p n by (subst delete_nodes.simps) (simp add: load_Some delete_node_Some)
qed

lemma walk_to_last_path:
  "path (heap s) p as \<Longrightarrow> as \<noteq> [] \<Longrightarrow> length as \<le> fuel \<Longrightarrow>
   walk_to_last fuel p s = Inr (Some (last as), s)"
proof (induction as arbitrary: p fuel)
  case Nil
  then show ?case by simp
next
  case (Cons a bs)
  from Cons.prems(1) obtain n where p: "p = Some a"
    and n: "lookup (heap s) a = Some n" and rest: "path (heap s) (next n) bs"
    by (auto split: option.splits)
  from Cons.prems(3) obtain k where fuel: "fuel = Suc k" and k: "length bs \<le> k"
    by (cases fuel) auto
  show ?case
  proof (cases bs)
    case Nil
    with rest have "next n = None" by simp
    with Nil p n fuel show ?thesis by (simp add: load_Some)
  next
    case (Cons b cs)
    with rest have nx: "next n = Some b" by simp
    have "walk_to_last k (next n) s = Inr (Some (last bs), s)"
      using rest k Cons by (intro Cons.IH) simp_all
    with nx p n fuel Cons show ?thesis by (simp add: load_Some)
  qed
qed

text \<open>
  When the walk to the tail uses up its rounds, the chain it walks has a cycle: the loop
  of the source does not end on it.
\<close>

lemma walk_to_last_exhausted:
  "walk_to_last fuel p s = Inl (NonTermination, s') \<Longrightarrow>
   \<exists>as. length as = fuel \<and> visits (heap s) p as"
proof (induction fuel arbitrary: p)
  case 0
  then show ?case by simp
next
  case (Suc fuel)
  from Suc.prems obtain a n b where p: "p = Some a" and n: "lookup (heap s) a = Some n"
    and b: "next n = Some b" and w: "walk_to_last fuel (Some b) s = Inl (NonTermination, s')"
    by (auto simp: load_def split: option.splits sum.splits)
  from Suc.IH [OF w] obtain as where "length as = fuel" "visits (heap s) (Some b) as"
    by blast
  with p n b show ?case
    by (intro exI [of _ "a # as"]) simp
qed

lemma visits_bounded: "visits h p as \<Longrightarrow> a \<in> set as \<Longrightarrow> a < length h"
  by (induction as arbitrary: p) (auto simp: lookup_def split: option.splits if_splits)

lemma walk_to_last_cycle:
  assumes "walk_to_last (Suc (length (heap s))) p s = Inl (NonTermination, s')"
  shows "\<exists>as. visits (heap s) p as \<and> \<not> distinct as"
proof -
  from walk_to_last_exhausted [OF assms] obtain as
    where as: "length as = Suc (length (heap s))" "visits (heap s) p as"
    by blast
  have "\<not> distinct as"
  proof
    assume "distinct as"
    then have "length as \<le> length (heap s)"
      by (rule distinct_bounded_length) (rule visits_bounded [OF as(2)])
    with as(1) show False by simp
  qed
  with as(2) show ?thesis by blast
qed

lemma path_last_next:
  "path h p as \<Longrightarrow> as \<noteq> [] \<Longrightarrow> \<exists>n. lookup h (last as) = Some n \<and> next n = None"
proof (induction as arbitrary: p)
  case Nil
  then show ?case by simp
next
  case (Cons a as)
  then show ?case by (cases as) (auto split: option.splits)
qed


subsection \<open>Reclamation\<close>

lemma chain_pending_nodes_path:
  assumes "path (heap s) p ps" and "ps \<noteq> []" and "distinct ps"
  shows "\<exists>n. lookup (heap s) (last ps) = Some n \<and> next n = None \<and>
           chain_pending_nodes p s =
             Inr (s\<lparr>heap := (heap s)[last ps := Some (n\<lparr>next := to_be_deleted s\<rparr>)],
                    to_be_deleted := p\<rparr>)"
proof -
  have "length ps \<le> Suc (length (heap s))"
    using path_length [OF assms(1,3)] by simp
  then have w: "walk_to_last (Suc (length (heap s))) p s = Inr (Some (last ps), s)"
    by (rule walk_to_last_path [OF assms(1,2)])
  from path_last_next [OF assms(1,2)] obtain n
    where n: "lookup (heap s) (last ps) = Some n" "next n = None"
    by blast
  show ?thesis
    using n w by (simp add: chain_pending_nodes_def chain_pending_nodes_range_Some)
qed

lemma update_same_node:
  assumes "lookup h a = Some n" and "next n = q"
  shows "h[a := Some (n\<lparr>next := q\<rparr>)] = h"
proof -
  have "n\<lparr>next := q\<rparr> = n"
    using assms(2) by (cases n) simp
  moreover have "a < length h" and "h ! a = Some n"
    using assms(1) by (simp_all add: lookup_def split: if_splits)
  ultimately show ?thesis
    by (simp add: list_update_same_conv)
qed

lemma chain_pending_nodes_relink:
  assumes "path (heap s) p ps" and "ps \<noteq> []" and "distinct ps"
    and "to_be_deleted s = None"
  shows "chain_pending_nodes p s = Inr (s\<lparr>to_be_deleted := p\<rparr>)"
proof -
  from chain_pending_nodes_path [OF assms(1-3)] obtain n
    where n: "lookup (heap s) (last ps) = Some n" "next n = None"
      and c: "chain_pending_nodes p s =
             Inr (s\<lparr>heap := (heap s)[last ps := Some (n\<lparr>next := to_be_deleted s\<rparr>)],
                    to_be_deleted := p\<rparr>)"
    by blast
  have "(heap s)[last ps := Some (n\<lparr>next := to_be_deleted s\<rparr>)] = heap s"
    using n assms(4) by (intro update_same_node) simp_all
  with c show ?thesis by simp
qed

lemma path_append:
  "path h p as \<Longrightarrow> as \<noteq> [] \<Longrightarrow> lookup h (last as) = Some n \<Longrightarrow> distinct as \<Longrightarrow>
   path h q bs \<Longrightarrow> set as \<inter> set bs = {} \<Longrightarrow>
   path (h[last as := Some (n\<lparr>next := q\<rparr>)]) p (as @ bs)"
proof (induction as arbitrary: p)
  case Nil
  then show ?case by simp
next
  case (Cons a as)
  from Cons.prems(1) obtain m where p: "p = Some a" and m: "lookup h a = Some m"
    and rest: "path h (next m) as"
    by (auto split: option.splits)
  have a: "a < length h" using m by (rule lookup_Some_less)
  show ?case
  proof (cases as)
    case Nil
    have "path (h[a := Some (n\<lparr>next := q\<rparr>)]) q bs"
      using Cons.prems(5) by (rule path_frame) (use Cons.prems(6) in \<open>auto simp: lookup_update\<close>)
    with Nil p a show ?thesis by (simp add: lookup_update)
  next
    case (Cons b cs)
    have "path (h[last as := Some (n\<lparr>next := q\<rparr>)]) (next m) (as @ bs)"
      using rest Cons Cons.prems by (intro Cons.IH) auto
    moreover have "last as \<noteq> a"
      using Cons Cons.prems(4) by (metis distinct.simps(2) last_in_set list.distinct(1))
    ultimately show ?thesis
      using Cons p m by (simp add: lookup_update)
  qed
qed

lemma delete_node_None: "delete_node None s = Inr s"
  by (simp add: delete_node_def)

lemma try_reclaim_defer:
  assumes "threads_in_pop s \<noteq> 1" and "path (heap s) (Some a) as" and "distinct as"
  shows "\<exists>n. lookup (heap s) (last as) = Some n \<and>
           try_reclaim k (Some a) s =
             Inr (s\<lparr>heap := (heap s)[last as := Some (n\<lparr>next := to_be_deleted s\<rparr>)],
                    to_be_deleted := Some a, threads_in_pop := threads_in_pop s - 1\<rparr>)"
proof -
  from assms(2) have "as \<noteq> []" by auto
  from chain_pending_nodes_path [OF assms(2) this assms(3)] obtain n
    where "lookup (heap s) (last as) = Some n"
      and "chain_pending_nodes (Some a) s =
             Inr (s\<lparr>heap := (heap s)[last as := Some (n\<lparr>next := to_be_deleted s\<rparr>)],
                    to_be_deleted := Some a\<rparr>)"
    by blast
  with assms(1) show ?thesis
    by (simp add: try_reclaim_def)
qed

lemma chain_pending_nodes_null: "chain_pending_nodes None s = Inl (NullDereference, s)"
  by (simp add: chain_pending_nodes_def load_None)

lemma try_reclaim_defer_null:
  "threads_in_pop s \<noteq> 1 \<Longrightarrow> try_reclaim k None s = Inl (NullDereference, s)"
  by (simp add: try_reclaim_def chain_pending_nodes_null)

lemma try_reclaim_sole_quiet:
  assumes "threads_in_pop s = 1" and "delete_node old s = Inr s1"
    and "path (heap s1) (to_be_deleted s) ps" and "distinct ps"
  shows "try_reclaim 0 old s =
     Inr (s1\<lparr>to_be_deleted := None, threads_in_pop := 0,
             heap := free_cells ps (heap s1), freed := freed s1 + length ps\<rparr>)"
proof -
  have f: "to_be_deleted s1 = to_be_deleted s" "threads_in_pop s1 = 1"
    using assms(1,2) by (auto simp: delete_node_def split: option.splits)
  let ?s4 = "s1\<lparr>to_be_deleted := None, threads_in_pop := 0\<rparr>"
  have "delete_nodes (to_be_deleted s) ?s4 =
      Inr (?s4\<lparr>heap := free_cells ps (heap ?s4), freed := freed ?s4 + length ps\<rparr>)"
    using assms(3,4) by (intro delete_nodes_path) simp_all
  then show ?thesis
    using assms(1,2) f by (simp add: try_reclaim_def)
qed

lemma try_reclaim_sole_entered:
  assumes "threads_in_pop s = 1" and "delete_node old s = Inr s1"
    and "path (heap s1) (to_be_deleted s) ps" and "distinct ps" and "0 < k"
  shows "try_reclaim k old s = Inr (s1\<lparr>threads_in_pop := int k\<rparr>)"
proof -
  have f: "to_be_deleted s1 = to_be_deleted s" "threads_in_pop s1 = 1"
    using assms(1,2) by (auto simp: delete_node_def split: option.splits)
  let ?s4 = "s1\<lparr>to_be_deleted := None, threads_in_pop := int k\<rparr>"
  show ?thesis
  proof (cases ps)
    case Nil
    with assms(3) have "to_be_deleted s = None" by simp
    with f have "s1\<lparr>to_be_deleted := None\<rparr> = s1" by (cases s1) simp
    then have "?s4 = s1\<lparr>threads_in_pop := int k\<rparr>" by simp
    with assms(1,2,5) f \<open>to_be_deleted s = None\<close> show ?thesis
      by (simp add: try_reclaim_def)
  next
    case (Cons a as)
    with assms(3) have nn: "to_be_deleted s \<noteq> None" by auto
    have "chain_pending_nodes (to_be_deleted s) ?s4 = Inr (?s4\<lparr>to_be_deleted := to_be_deleted s\<rparr>)"
      using assms(3,4) Cons by (intro chain_pending_nodes_relink [of _ _ ps]) simp_all
    moreover have "?s4\<lparr>to_be_deleted := to_be_deleted s\<rparr> = s1\<lparr>threads_in_pop := int k\<rparr>"
      using f by (cases s1) simp
    ultimately show ?thesis
      using assms(1,2,5) f nn by (simp add: try_reclaim_def)
  qed
qed

subsection \<open>Pop, case by case\<close>

lemma pop_empty:
  "head s = None \<Longrightarrow>
   pop k s =
     (case try_reclaim k None (s\<lparr>threads_in_pop := threads_in_pop s + 1\<rparr>) of
        Inl e \<Rightarrow> Inl e
      | Inr s4 \<Rightarrow> Inr (None, s4))"
  by (simp add: pop_def detach_loop_None swap_data_def)

lemma pop_nonempty:
  assumes "head s = Some a" and "lookup (heap s) a = Some n"
  shows "pop k s =
     (case try_reclaim k (Some a)
             (s\<lparr>threads_in_pop := threads_in_pop s + 1, head := next n,
                 heap := (heap s)[a := Some (n\<lparr>data := None\<rparr>)]\<rparr>) of
        Inl e \<Rightarrow> Inl e
      | Inr s4 \<Rightarrow> Inr (data n, s4))"
proof -
  let ?s1 = "s\<lparr>threads_in_pop := threads_in_pop s + 1\<rparr>"
  have "detach_loop (head ?s1) ?s1 = Inr (Some a, ?s1\<lparr>head := next n\<rparr>)"
    using assms by (intro detach_loop_head) simp_all
  then show ?thesis
    using assms by (simp add: pop_def swap_data_def load_Some)
qed

lemma pop_sole_quiet:
  assumes "threads_in_pop s = 0" and "pending_list s ps" and "distinct ps"
    and "case head s of None \<Rightarrow> True | Some a \<Rightarrow> lookup (heap s) a \<noteq> None \<and> a \<notin> set ps"
  shows "pop 0 s =
     Inr (top_value s,
          s\<lparr>head := below_top s, to_be_deleted := None,
            heap := free_cells (top_cell s @ ps) (heap s),
            freed := freed s + length (top_cell s) + length ps\<rparr>)"
    (is "_ = Inr (_, ?t)")
proof (cases "head s")
  case None
  let ?s1 = "s\<lparr>threads_in_pop := threads_in_pop s + 1\<rparr>"
  let ?s4 = "?s1\<lparr>to_be_deleted := None, threads_in_pop := 0,
             heap := free_cells ps (heap ?s1), freed := freed ?s1 + length ps\<rparr>"
  have "try_reclaim 0 None ?s1 = Inr ?s4"
    using assms(1-3)
    by (intro try_reclaim_sole_quiet) (simp_all add: delete_node_None pending_list_def)
  moreover have "?s4 = ?t"
    by (rule stack.equality) (simp_all add: None assms(1) below_top_def top_cell_def)
  ultimately show ?thesis
    using None by (simp add: pop_empty top_value_def)
next
  case (Some a)
  with assms(4) obtain n where n: "lookup (heap s) a = Some n" and a: "a \<notin> set ps"
    by auto
  have al: "a < length (heap s)" using n by (rule lookup_Some_less)
  let ?s1 = "s\<lparr>threads_in_pop := threads_in_pop s + 1, head := next n,
               heap := (heap s)[a := Some (n\<lparr>data := None\<rparr>)]\<rparr>"
  let ?s2 = "?s1\<lparr>heap := (heap ?s1)[a := None], freed := Suc (freed ?s1)\<rparr>"
  let ?s4 = "?s2\<lparr>to_be_deleted := None, threads_in_pop := 0,
             heap := free_cells ps (heap ?s2), freed := freed ?s2 + length ps\<rparr>"
  have d: "delete_node (Some a) ?s1 = Inr ?s2"
    using al by (intro delete_node_Some [where n = "n\<lparr>data := None\<rparr>"]) (simp add: lookup_update)
  have "path (heap s) (to_be_deleted s) ps"
    using assms(2) by (simp add: pending_list_def)
  then have "path (heap ?s2) (to_be_deleted s) ps"
    by (rule path_frame) (use a in \<open>auto simp: lookup_update\<close>)
  then have "path (heap ?s2) (to_be_deleted ?s1) ps"
    by simp
  then have "try_reclaim 0 (Some a) ?s1 = Inr ?s4"
    using assms(1,3) d by (intro try_reclaim_sole_quiet) simp_all
  moreover have "?s4 = ?t"
    by (rule stack.equality) (simp_all add: Some n assms(1) below_top_def top_cell_def)
  ultimately show ?thesis
    using Some n by (simp add: pop_nonempty [OF Some n] top_value_def cell_data_def)
qed

lemma pop_sole_entered:
  assumes "threads_in_pop s = 0" and "pending_list s ps" and "distinct ps"
    and "case head s of None \<Rightarrow> True | Some a \<Rightarrow> lookup (heap s) a \<noteq> None \<and> a \<notin> set ps"
    and "0 < k"
  shows "pop k s =
     Inr (top_value s,
          s\<lparr>head := below_top s, threads_in_pop := int k,
            heap := free_cells (top_cell s) (heap s),
            freed := freed s + length (top_cell s)\<rparr>)"
    (is "_ = Inr (_, ?t)")
proof (cases "head s")
  case None
  let ?s1 = "s\<lparr>threads_in_pop := threads_in_pop s + 1\<rparr>"
  have "try_reclaim k None ?s1 = Inr (?s1\<lparr>threads_in_pop := int k\<rparr>)"
    using assms(1-3,5)
    by (intro try_reclaim_sole_entered [where ps = ps]) (simp_all add: delete_node_None pending_list_def)
  moreover have "?s1\<lparr>threads_in_pop := int k\<rparr> = ?t"
    by (rule stack.equality) (simp_all add: None below_top_def top_cell_def)
  ultimately show ?thesis
    using None by (simp add: pop_empty top_value_def)
next
  case (Some a)
  with assms(4) obtain n where n: "lookup (heap s) a = Some n" and a: "a \<notin> set ps"
    by auto
  have al: "a < length (heap s)" using n by (rule lookup_Some_less)
  let ?s1 = "s\<lparr>threads_in_pop := threads_in_pop s + 1, head := next n,
               heap := (heap s)[a := Some (n\<lparr>data := None\<rparr>)]\<rparr>"
  let ?s2 = "?s1\<lparr>heap := (heap ?s1)[a := None], freed := Suc (freed ?s1)\<rparr>"
  have d: "delete_node (Some a) ?s1 = Inr ?s2"
    using al by (intro delete_node_Some [where n = "n\<lparr>data := None\<rparr>"]) (simp add: lookup_update)
  have "path (heap s) (to_be_deleted s) ps"
    using assms(2) by (simp add: pending_list_def)
  then have "path (heap ?s2) (to_be_deleted s) ps"
    by (rule path_frame) (use a in \<open>auto simp: lookup_update\<close>)
  then have "path (heap ?s2) (to_be_deleted ?s1) ps"
    by simp
  then have "try_reclaim k (Some a) ?s1 = Inr (?s2\<lparr>threads_in_pop := int k\<rparr>)"
    using assms(1,3,5) d by (intro try_reclaim_sole_entered [where ps = ps]) simp_all
  moreover have "?s2\<lparr>threads_in_pop := int k\<rparr> = ?t"
    by (rule stack.equality) (simp_all add: Some n below_top_def top_cell_def)
  ultimately show ?thesis
    using Some n by (simp add: pop_nonempty [OF Some n] top_value_def cell_data_def)
qed

lemma pop_defer:
  assumes "threads_in_pop s \<noteq> 0" and "path (heap s) (Some a) (a # as)"
    and "distinct (a # as)" and "head s = Some a"
  shows "\<exists>r s'. pop k s = Inr (r, s') \<and> threads_in_pop s' = threads_in_pop s \<and>
           to_be_deleted s' = Some a"
proof -
  from assms(2) obtain n where n: "lookup (heap s) a = Some n"
    and rest: "path (heap s) (next n) as"
    by (auto split: option.splits)
  have al: "a < length (heap s)" using n by (rule lookup_Some_less)
  let ?s1 = "s\<lparr>threads_in_pop := threads_in_pop s + 1, head := next n,
               heap := (heap s)[a := Some (n\<lparr>data := None\<rparr>)]\<rparr>"
  have "path (heap ?s1) (next n) as"
    using rest by (rule path_frame) (use assms(3) in \<open>auto simp: lookup_update\<close>)
  then have "path (heap ?s1) (Some a) (a # as)"
    using al by (simp add: lookup_update)
  from try_reclaim_defer [OF _ this assms(3), of k] assms(1) obtain s'
    where "try_reclaim k (Some a) ?s1 = Inr s'" "threads_in_pop s' = threads_in_pop s"
      "to_be_deleted s' = Some a"
    by auto
  then show ?thesis
    by (simp add: pop_nonempty [OF assms(4) n])
qed

lemma pop_defer_empty:
  assumes "threads_in_pop s \<noteq> 0" and "head s = None"
  shows "pop k s = Inl (NullDereference, s\<lparr>threads_in_pop := threads_in_pop s + 1\<rparr>)"
  using assms by (simp add: pop_empty try_reclaim_defer_null)

subsection \<open>The invariant\<close>

lemma stack_inv_iff:
  "stack_inv s ms ps \<longleftrightarrow>
     path (heap s) (head s) ms \<and> path (heap s) (to_be_deleted s) ps \<and>
     distinct ms \<and> distinct ps \<and> set ms \<inter> set ps = {} \<and>
     (\<forall>a\<in>set ms. cell_data (heap s) a \<noteq> None) \<and>
     (\<forall>a\<in>set ps. cell_data (heap s) a = None)"
  by (auto simp: stack_inv_def main_list_def pending_list_def list_all_iff)

lemma no_leak_iff:
  "no_leak s ms ps \<longleftrightarrow>
     (\<forall>a. lookup (heap s) a \<noteq> None \<longrightarrow> a \<in> set ms \<or> a \<in> set ps) \<and>
     allocated s = freed s + length ms + length ps"
proof -
  have "(\<forall>a\<in>set [0..<length (heap s)]. lookup (heap s) a = None \<or> a \<in> set (ms @ ps)) \<longleftrightarrow>
        (\<forall>a. lookup (heap s) a \<noteq> None \<longrightarrow> a \<in> set ms \<or> a \<in> set ps)"
    (is "?l \<longleftrightarrow> ?r")
  proof
    assume l: ?l
    show ?r
    proof (intro allI impI)
      fix a
      assume "lookup (heap s) a \<noteq> None"
      then have "a < length (heap s)"
        by (simp add: lookup_def split: if_splits)
      then have "a \<in> set [0..<length (heap s)]"
        by simp
      with l have "lookup (heap s) a = None \<or> a \<in> set (ms @ ps)"
        by (rule bspec)
      with \<open>lookup (heap s) a \<noteq> None\<close> show "a \<in> set ms \<or> a \<in> set ps"
        by auto
    qed
  next
    assume ?r
    then show ?l by auto
  qed
  then show ?thesis
    by (simp add: no_leak_def list_all_iff)
qed

lemma stack_inv_transfer:
  assumes "path (heap s) (head s') ms'" and "path (heap s) (to_be_deleted s') ps'"
    and "distinct ms'" and "distinct ps'" and "set ms' \<inter> set ps' = {}"
    and "\<And>a. a \<in> set ms' \<Longrightarrow> cell_data (heap s) a \<noteq> None"
    and "\<And>a. a \<in> set ps' \<Longrightarrow> cell_data (heap s) a = None"
    and same: "\<And>a. a \<in> set ms' \<union> set ps' \<Longrightarrow> lookup (heap s') a = lookup (heap s) a"
  shows "stack_inv s' ms' ps'"
proof -
  have "path (heap s') (head s') ms'"
    using assms(1) by (rule path_frame) (simp add: same)
  moreover have "path (heap s') (to_be_deleted s') ps'"
    using assms(2) by (rule path_frame) (simp add: same)
  moreover have "\<forall>a\<in>set ms'. cell_data (heap s') a \<noteq> None"
    using assms(6) same by (simp add: cell_data_def)
  moreover have "\<forall>a\<in>set ps'. cell_data (heap s') a = None"
    using assms(7) same by (simp add: cell_data_def)
  ultimately show ?thesis
    using assms(3-5) by (simp add: stack_inv_iff)
qed

lemma stack_inv_head:
  assumes "stack_inv s ms ps"
  shows "case head s of None \<Rightarrow> True | Some a \<Rightarrow> lookup (heap s) a \<noteq> None \<and> a \<notin> set ps"
proof (cases "head s")
  case None
  then show ?thesis by simp
next
  case (Some a)
  with assms have "path (heap s) (Some a) ms" by (simp add: stack_inv_iff)
  then obtain n bs where "ms = a # bs" "lookup (heap s) a = Some n"
    using path_Some by blast
  with assms Some show ?thesis by (auto simp: stack_inv_iff)
qed

lemma stack_inv_top:
  assumes "stack_inv s ms ps"
  shows "top_cell s = take 1 ms" and "path (heap s) (below_top s) (tl ms)"
    and "top_value s = (case ms of [] \<Rightarrow> None | a # bs \<Rightarrow> cell_data (heap s) a)"
proof -
  from assms have p: "path (heap s) (head s) ms" by (simp add: stack_inv_iff)
  show "top_cell s = take 1 ms"
    using p by (cases ms) (auto simp: top_cell_def)
  show "path (heap s) (below_top s) (tl ms)"
    using p by (cases ms) (auto simp: below_top_def split: option.splits)
  show "top_value s = (case ms of [] \<Rightarrow> None | a # bs \<Rightarrow> cell_data (heap s) a)"
    using p by (cases ms) (auto simp: top_value_def)
qed

lemma stack_inv_fresh: "stack_inv (LockFreeStack (storage c k None)) [] []"
  by (simp add: stack_inv_iff LockFreeStack_def storage_def)

lemma no_leak_fresh: "no_leak (LockFreeStack (storage c k None)) [] []"
  by (simp add: no_leak_iff LockFreeStack_def storage_def lookup_def)

text \<open>Sole pop, nobody entered: the top node and the whole pending list are freed.\<close>

lemma stack_inv_pop_sole_quiet:
  assumes "stack_inv s ms ps"
    and "head s' = below_top s" and "to_be_deleted s' = None"
    and "heap s' = free_cells (top_cell s @ ps) (heap s)"
  shows "stack_inv s' (tl ms) []"
proof (rule stack_inv_transfer [where s = s])
  show "path (heap s) (head s') (tl ms)"
    using stack_inv_top(2) [OF assms(1)] assms(2) by simp
  show "path (heap s) (to_be_deleted s') []"
    using assms(3) by simp
  show "distinct (tl ms)"
    using assms(1) by (simp add: stack_inv_iff distinct_tl)
  show "\<And>a. a \<in> set (tl ms) \<Longrightarrow> cell_data (heap s) a \<noteq> None"
    using assms(1) by (cases ms) (auto simp: stack_inv_iff)
  show "\<And>a. a \<in> set (tl ms) \<union> set [] \<Longrightarrow> lookup (heap s') a = lookup (heap s) a"
    using assms(1) by (cases ms) (auto simp: assms(4) stack_inv_top(1) [OF assms(1)] lookup_free_cells lookup_update_None stack_inv_iff)
qed simp_all

lemma no_leak_pop_sole_quiet:
  assumes "stack_inv s ms ps" and "no_leak s ms ps"
    and "heap s' = free_cells (top_cell s @ ps) (heap s)"
    and "allocated s' = allocated s"
    and "freed s' = freed s + length (top_cell s) + length ps"
  shows "no_leak s' (tl ms) []"
  using assms(2)
  by (cases ms) (auto simp: no_leak_iff assms(3-5) stack_inv_top(1) [OF assms(1)] lookup_free_cells lookup_update_None split: if_splits)

text \<open>Sole pop while others entered: the top node is freed, the pending list stays.\<close>

lemma stack_inv_pop_sole_entered:
  assumes "stack_inv s ms ps"
    and "head s' = below_top s" and "to_be_deleted s' = to_be_deleted s"
    and "heap s' = free_cells (top_cell s) (heap s)"
  shows "stack_inv s' (tl ms) ps"
proof (rule stack_inv_transfer [where s = s])
  show "path (heap s) (head s') (tl ms)"
    using stack_inv_top(2) [OF assms(1)] assms(2) by simp
  show "path (heap s) (to_be_deleted s') ps"
    using assms(1,3) by (simp add: stack_inv_iff)
  show "distinct (tl ms)" "distinct ps"
    using assms(1) by (simp_all add: stack_inv_iff distinct_tl)
  show "set (tl ms) \<inter> set ps = {}"
    using assms(1) by (cases ms) (auto simp: stack_inv_iff)
  show "\<And>a. a \<in> set (tl ms) \<Longrightarrow> cell_data (heap s) a \<noteq> None"
    using assms(1) by (cases ms) (auto simp: stack_inv_iff)
  show "\<And>a. a \<in> set ps \<Longrightarrow> cell_data (heap s) a = None"
    using assms(1) by (simp add: stack_inv_iff)
  show "\<And>a. a \<in> set (tl ms) \<union> set ps \<Longrightarrow> lookup (heap s') a = lookup (heap s) a"
    using assms(1) by (cases ms) (auto simp: assms(4) stack_inv_top(1) [OF assms(1)] lookup_free_cells lookup_update_None stack_inv_iff)
qed

lemma no_leak_pop_sole_entered:
  assumes "stack_inv s ms ps" and "no_leak s ms ps"
    and "heap s' = free_cells (top_cell s) (heap s)"
    and "allocated s' = allocated s"
    and "freed s' = freed s + length (top_cell s)"
  shows "no_leak s' (tl ms) ps"
  using assms(2)
  by (cases ms) (auto simp: no_leak_iff assms(3-5) stack_inv_top(1) [OF assms(1)] lookup_free_cells lookup_update_None split: if_splits)

text \<open>Push: the new node becomes the head of the main list.\<close>

lemma stack_inv_push:
  assumes "stack_inv s ms ps" and "alloc_addr (heap s) = Some a"
    and "head s' = Some a" and "to_be_deleted s' = to_be_deleted s"
    and "heap s' = (heap s)[a := Some \<lparr>data = Some v, next = head s\<rparr>]"
  shows "stack_inv s' (a # ms) ps"
proof -
  from alloc_addr_Some [OF assms(2)] have al: "a < length (heap s)" and "lookup (heap s) a = None"
    by (simp_all add: lookup_def)
  with assms(1) have d: "a \<notin> set ms" "a \<notin> set ps"
    using path_live [of "heap s" _ _ a] by (auto simp: stack_inv_iff)
  have same: "lookup (heap s') b = lookup (heap s) b" if "b \<in> set ms \<or> b \<in> set ps" for b
    using that d by (auto simp: assms(5) lookup_update)
  have la: "lookup (heap s') a = Some \<lparr>data = Some v, next = head s\<rparr>"
    using al by (simp add: assms(5) lookup_update)
  have "path (heap s) (head s) ms"
    using assms(1) by (simp add: stack_inv_iff)
  then have "path (heap s') (head s) ms"
    by (rule path_frame) (use d in \<open>auto simp: same\<close>)
  then have m: "path (heap s') (head s') (a # ms)"
    using la by (simp add: assms(3))
  have "path (heap s) (to_be_deleted s) ps"
    using assms(1) by (simp add: stack_inv_iff)
  then have p: "path (heap s') (to_be_deleted s') ps"
    unfolding assms(4) by (rule path_frame) (use d in \<open>auto simp: same\<close>)
  have "\<forall>b\<in>set (a # ms). cell_data (heap s') b \<noteq> None"
    using assms(1) d la by (auto simp: stack_inv_iff cell_data_def same)
  moreover have "\<forall>b\<in>set ps. cell_data (heap s') b = None"
    using assms(1) d by (auto simp: stack_inv_iff cell_data_def same)
  ultimately show ?thesis
    using m p d assms(1) by (auto simp: stack_inv_iff)
qed

lemma no_leak_push:
  assumes "no_leak s ms ps"
    and "heap s' = (heap s)[a := Some \<lparr>data = Some v, next = head s\<rparr>]"
    and "allocated s' = Suc (allocated s)" and "freed s' = freed s"
  shows "no_leak s' (a # ms) ps"
  using assms(1) by (auto simp: no_leak_iff assms(2-4) lookup_update split: if_splits)

subsection \<open>Sequences of calls on one thread\<close>

lemma alloc_addr_room:
  assumes "no_leak s ms ps" and "length ms + length ps < length (heap s)"
  shows "alloc_addr (heap s) \<noteq> None"
proof
  assume "alloc_addr (heap s) = None"
  then have "\<forall>a<length (heap s). lookup (heap s) a \<noteq> None"
    by (simp add: alloc_addr_None lookup_def)
  with assms(1) have "{..<length (heap s)} \<subseteq> set (ms @ ps)"
    by (auto simp: no_leak_iff)
  then have "card {..<length (heap s)} \<le> card (set (ms @ ps))"
    by (intro card_mono) simp_all
  also have "\<dots> \<le> length (ms @ ps)"
    by (rule card_length)
  finally show False
    using assms(2) by simp
qed

lemma push_spec:
  assumes "stack_inv s ms ps" and "no_leak s ms ps"
    and "length ms + length ps < length (heap s)"
  shows "\<exists>a s'. push v s = Inr ((), s') \<and> stack_inv s' (a # ms) ps \<and> no_leak s' (a # ms) ps \<and>
           cell_data (heap s') a = Some v \<and>
           (\<forall>b\<in>set ms. cell_data (heap s') b = cell_data (heap s) b) \<and>
           threads_in_pop s' = threads_in_pop s \<and> length (heap s') = length (heap s)"
proof -
  from alloc_addr_room [OF assms(2,3)] obtain a where a: "alloc_addr (heap s) = Some a"
    by auto
  let ?s' = "s\<lparr>heap := (heap s)[a := Some \<lparr>data = Some v, next = head s\<rparr>],
               allocated := Suc (allocated s), head := Some a\<rparr>"
  from alloc_addr_Some [OF a] have al: "a < length (heap s)" and fr: "lookup (heap s) a = None"
    by (simp_all add: lookup_def)
  have "a \<notin> set ms"
    using assms(1) fr path_live [of "heap s" "head s" ms a] by (auto simp: stack_inv_iff)
  then have "\<forall>b\<in>set ms. cell_data (heap ?s') b = cell_data (heap s) b"
    by (auto simp: cell_data_def lookup_update)
  moreover have "push v s = Inr ((), ?s')"
    using a by (simp add: push_eq)
  moreover have "stack_inv ?s' (a # ms) ps"
    by (rule stack_inv_push [OF assms(1) a]) simp_all
  moreover have "no_leak ?s' (a # ms) ps"
    by (rule no_leak_push [OF assms(2)]) simp_all
  moreover have "cell_data (heap ?s') a = Some v"
    using al by (simp add: cell_data_def lookup_update)
  ultimately show ?thesis
    by (intro exI [of _ a] exI [of _ ?s']) simp
qed

lemma pushes_spec:
  assumes "stack_inv s ms ps" and "no_leak s ms ps"
    and "length vs + length ms + length ps \<le> length (heap s)"
  shows "\<exists>as s'. pushes vs s = Inr ((), s') \<and> stack_inv s' (as @ ms) ps \<and>
           no_leak s' (as @ ms) ps \<and>
           map (cell_data (heap s')) (as @ ms) = map Some (rev vs) @ map (cell_data (heap s)) ms \<and>
           threads_in_pop s' = threads_in_pop s"
  using assms
proof (induction vs arbitrary: s ms)
  case Nil
  then show ?case by (intro exI [of _ "[]"] exI [of _ s]) simp
next
  case (Cons v vs)
  from Cons.prems(3) have "length ms + length ps < length (heap s)" by simp
  from push_spec [OF Cons.prems(1,2) this, of v] obtain a s1
    where p: "push v s = Inr ((), s1)" and i: "stack_inv s1 (a # ms) ps"
      and l: "no_leak s1 (a # ms) ps" and d: "cell_data (heap s1) a = Some v"
      and f: "\<forall>b\<in>set ms. cell_data (heap s1) b = cell_data (heap s) b"
      and c: "threads_in_pop s1 = threads_in_pop s" and n: "length (heap s1) = length (heap s)"
    by blast
  from Cons.prems(3) n have "length vs + length (a # ms) + length ps \<le> length (heap s1)"
    by simp
  from Cons.IH [OF i l this] obtain as s'
    where ps: "pushes vs s1 = Inr ((), s')" and i': "stack_inv s' (as @ a # ms) ps"
      and l': "no_leak s' (as @ a # ms) ps"
      and m: "map (cell_data (heap s')) (as @ a # ms) =
              map Some (rev vs) @ map (cell_data (heap s1)) (a # ms)"
      and c': "threads_in_pop s' = threads_in_pop s1"
    by blast
  have "map (cell_data (heap s1)) ms = map (cell_data (heap s)) ms"
    using f by simp
  with m d have "map (cell_data (heap s')) ((as @ [a]) @ ms) =
      map Some (rev (v # vs)) @ map (cell_data (heap s)) ms"
    by simp
  with p ps i' l' c c' show ?case
    by (intro exI [of _ "as @ [a]"] exI [of _ s']) simp
qed

lemma pop_sole_quiet_spec:
  assumes "stack_inv s ms ps" and "threads_in_pop s = 0"
  shows "\<exists>s'. pop 0 s = Inr (top_value s, s') \<and> stack_inv s' (tl ms) [] \<and>
           threads_in_pop s' = 0 \<and>
           (\<forall>b\<in>set (tl ms). cell_data (heap s') b = cell_data (heap s) b) \<and>
           (no_leak s ms ps \<longrightarrow> no_leak s' (tl ms) [])"
proof -
  let ?s' = "s\<lparr>head := below_top s, to_be_deleted := None,
               heap := free_cells (top_cell s @ ps) (heap s),
               freed := freed s + length (top_cell s) + length ps\<rparr>"
  from assms(1) have pl: "pending_list s ps" and d: "distinct ps"
    by (simp_all add: stack_inv_def)
  have "pop 0 s = Inr (top_value s, ?s')"
    using assms(2) pl d stack_inv_head [OF assms(1)] by (rule pop_sole_quiet)
  moreover have "stack_inv ?s' (tl ms) []"
    by (rule stack_inv_pop_sole_quiet [OF assms(1)]) simp_all
  moreover have "\<forall>b\<in>set (tl ms). cell_data (heap ?s') b = cell_data (heap s) b"
    using assms(1)
    by (cases ms) (auto simp: stack_inv_iff stack_inv_top(1) [OF assms(1)] cell_data_def
        lookup_free_cells lookup_update_None)
  moreover have "no_leak ?s' (tl ms) []" if "no_leak s ms ps"
    by (rule no_leak_pop_sole_quiet [OF assms(1) that]) simp_all
  ultimately show ?thesis
    using assms(2) by (intro exI [of _ ?s']) simp
qed

lemma pops_drain:
  assumes "stack_inv s ms ps" and "threads_in_pop s = 0"
  shows "\<exists>s'. pops (Suc (length ms)) s = Inr (map (cell_data (heap s)) ms @ [None], s')"
  using assms
proof (induction ms arbitrary: s ps)
  case Nil
  from pop_sole_quiet_spec [OF Nil] obtain s' where "pop 0 s = Inr (top_value s, s')"
    by blast
  moreover have "top_value s = None"
    using stack_inv_top(3) [OF Nil(1)] by simp
  ultimately show ?case by simp
next
  case (Cons a ms)
  from pop_sole_quiet_spec [OF Cons.prems] obtain s1
    where p: "pop 0 s = Inr (top_value s, s1)" and i: "stack_inv s1 ms []"
      and c: "threads_in_pop s1 = 0"
      and f: "\<forall>b\<in>set ms. cell_data (heap s1) b = cell_data (heap s) b"
    by auto
  from Cons.IH [OF i c] obtain s'
    where "pops (Suc (length ms)) s1 = Inr (map (cell_data (heap s1)) ms @ [None], s')"
    by blast
  moreover have "map (cell_data (heap s1)) ms = map (cell_data (heap s)) ms"
    using f by simp
  moreover have "top_value s = cell_data (heap s) a"
    using stack_inv_top(3) [OF Cons.prems(1)] by simp
  ultimately show ?case
    using p by (simp del: pops.simps add: pops.simps(2) [of "Suc (length ms)"])
qed

lemma pop_fresh:
  "pop 0 (LockFreeStack (storage c 0 None)) = Inr (None, LockFreeStack (storage c 0 None))"
  by (simp add: pop_def LockFreeStack_def storage_def
      detach_loop_None swap_data_def try_reclaim_def delete_node_def delete_nodes_None)


subsection \<open>Which errors a call can raise\<close>

lemma load_error: "load p s = Inl (e, s') \<Longrightarrow> e \<noteq> AllocationFailure"
  by (auto simp: load_def split: option.splits)

lemma store_next_error: "store_next p q s = Inl (e, s') \<Longrightarrow> e \<noteq> AllocationFailure"
  by (auto simp: store_next_def split: option.splits)

lemma delete_node_error: "delete_node p s = Inl (e, s') \<Longrightarrow> e \<noteq> AllocationFailure"
  by (auto simp: delete_node_def split: option.splits)

lemma delete_nodes_error: "delete_nodes p s = Inl (e, s') \<Longrightarrow> e \<noteq> AllocationFailure"
proof (induction p s rule: delete_nodes.induct)
  case (1 nodes s)
  show ?case
  proof (cases nodes)
    case None
    with "1.prems" show ?thesis by (simp add: delete_nodes_None)
  next
    case (Some a)
    show ?thesis
    proof (cases "load nodes s")
      case (Inl x)
      with "1.prems" Some show ?thesis
        by (subst (asm) delete_nodes.simps) (auto dest: load_error)
    next
      case (Inr n)
      show ?thesis
      proof (cases "delete_node (Some a) s")
        case (Inl x)
        with "1.prems" Some Inr show ?thesis
          by (subst (asm) delete_nodes.simps) (auto dest: delete_node_error)
      next
        case d: (Inr s1)
        with "1.prems" Some Inr have "delete_nodes (next n) s1 = Inl (e, s')"
          by (subst (asm) delete_nodes.simps) simp
        with "1.IH" [OF Some Inr d] show ?thesis .
      qed
    qed
  qed
qed

lemma chain_loop_error: "chain_loop first l s = Inl (e, s') \<Longrightarrow> e \<noteq> AllocationFailure"
proof (induction first l s rule: chain_loop.induct)
  case (1 first l s)
  show ?case
  proof (cases "load l s")
    case (Inl x)
    with "1.prems" show ?thesis
      by (subst (asm) chain_loop.simps) (auto dest: load_error)
  next
    case (Inr n)
    show ?thesis
    proof (cases "to_be_deleted s = next n")
      case True
      with "1.prems" Inr show ?thesis
        by (subst (asm) chain_loop.simps) simp
    next
      case False
      show ?thesis
      proof (cases "store_next l (to_be_deleted s) s")
        case (Inl x)
        with "1.prems" Inr False show ?thesis
          by (subst (asm) chain_loop.simps) (auto dest: store_next_error)
      next
        case st: (Inr s1)
        with "1.prems" Inr False have "chain_loop first l s1 = Inl (e, s')"
          by (subst (asm) chain_loop.simps) simp
        with "1.IH" [OF Inr False st] show ?thesis .
      qed
    qed
  qed
qed

lemma chain_pending_nodes_range_error:
  "chain_pending_nodes_range first l s = Inl (e, s') \<Longrightarrow> e \<noteq> AllocationFailure"
  by (auto simp: chain_pending_nodes_range_def split: sum.splits
      dest: store_next_error chain_loop_error)

lemma walk_to_last_error: "walk_to_last fuel p s = Inl (e, s') \<Longrightarrow> e \<noteq> AllocationFailure"
  by (induction fuel p s rule: walk_to_last.induct)
    (auto split: sum.splits option.splits dest: load_error)

lemma chain_pending_nodes_error:
  assumes "chain_pending_nodes p s = Inl (e, s')"
  shows "e \<noteq> AllocationFailure"
proof (cases "walk_to_last (Suc (length (heap s))) p s")
  case (Inl x)
  with assms have "walk_to_last (Suc (length (heap s))) p s = Inl (e, s')"
    unfolding chain_pending_nodes_def by simp
  then show ?thesis by (rule walk_to_last_error)
next
  case (Inr x)
  obtain l s1 where "x = (l, s1)" by (cases x)
  with assms Inr have "chain_pending_nodes_range p l s1 = Inl (e, s')"
    unfolding chain_pending_nodes_def by simp
  then show ?thesis by (rule chain_pending_nodes_range_error)
qed

lemma try_reclaim_error: "try_reclaim k old s = Inl (e, s') \<Longrightarrow> e \<noteq> AllocationFailure"
  by (auto simp: try_reclaim_def Let_def split: sum.splits if_splits
      dest: delete_node_error delete_nodes_error chain_pending_nodes_error)

lemma detach_loop_error: "detach_loop p s = Inl (e, s') \<Longrightarrow> e \<noteq> AllocationFailure"
proof (induction p s rule: detach_loop.induct)
  case (1 p s)
  show ?case
  proof (cases p)
    case None
    with "1.prems" show ?thesis by (simp add: detach_loop_None)
  next
    case (Some a)
    show ?thesis
    proof (cases "load p s")
      case (Inl x)
      with "1.prems" Some show ?thesis
        by (subst (asm) detach_loop.simps) (auto dest: load_error)
    next
      case (Inr n)
      show ?thesis
      proof (cases "head s = p")
        case True
        with "1.prems" Some Inr show ?thesis
          by (subst (asm) detach_loop.simps) simp
      next
        case False
        with "1.prems" Some Inr have "detach_loop (head s) s = Inl (e, s')"
          by (subst (asm) detach_loop.simps) simp
        with "1.IH" [OF Some Inr False] show ?thesis .
      qed
    qed
  qed
qed

lemma swap_data_error: "swap_data old s = Inl (e, s') \<Longrightarrow> e \<noteq> AllocationFailure"
  by (auto simp: swap_data_def split: option.splits sum.splits dest: load_error)

lemma pop_error: "pop k s = Inl (e, s') \<Longrightarrow> e \<noteq> AllocationFailure"
  by (auto simp: pop_def Let_def split: sum.splits prod.splits
      dest: detach_loop_error swap_data_error try_reclaim_error)

lemma destroy_error: "destroy s = Inl (e, s') \<Longrightarrow> e \<noteq> AllocationFailure"
proof (induction s rule: destroy.induct)
  case (1 s)
  show ?case
  proof (cases "pop 0 s")
    case (Inl x)
    with "1.prems" show ?thesis
      by (subst (asm) destroy.simps) (auto dest: pop_error)
  next
    case (Inr x)
    obtain res s1 where x: "x = (res, s1)" by (cases x)
    show ?thesis
    proof (cases res)
      case None
      with "1.prems" Inr x show ?thesis
        by (subst (asm) destroy.simps) simp
    next
      case (Some v)
      with "1.prems" Inr x have "destroy s1 = Inl (e, s')"
        by (subst (asm) destroy.simps) simp
      with "1.IH" [OF Inr x [symmetric] Some] show ?thesis .
    qed
  qed
qed

subsection \<open>Reclamation by the only pop in flight\<close>



lemma chain_pending_nodes_appends:
  assumes "path (heap s) p ps" and "ps \<noteq> []" and "distinct ps"
    and "pending_list s qs" and "set ps \<inter> set qs = {}"
  shows "\<exists>s'. chain_pending_nodes p s = Inr s' \<and> pending_list s' (ps @ qs) \<and>
           to_be_deleted s' = p \<and> head s' = head s \<and> threads_in_pop s' = threads_in_pop s \<and>
           freed s' = freed s"
proof -
  from chain_pending_nodes_path [OF assms(1-3)] obtain n
    where n: "lookup (heap s) (last ps) = Some n"
      and c: "chain_pending_nodes p s =
             Inr (s\<lparr>heap := (heap s)[last ps := Some (n\<lparr>next := to_be_deleted s\<rparr>)],
                    to_be_deleted := p\<rparr>)"
    by blast
  have "path ((heap s)[last ps := Some (n\<lparr>next := to_be_deleted s\<rparr>)]) p (ps @ qs)"
    using assms(1,2) n assms(3) assms(4) [unfolded pending_list_def] assms(5)
    by (rule path_append)
  with c show ?thesis
    by (simp add: pending_list_def)
qed

subsection \<open>Teardown and preservation\<close>

lemma pop_sole_quiet_frame:
  assumes "stack_inv s ms ps" and "no_leak s ms ps" and "threads_in_pop s = 0"
  shows "\<exists>s'. pop 0 s = Inr (top_value s, s') \<and> stack_inv s' (tl ms) [] \<and>
           no_leak s' (tl ms) [] \<and> threads_in_pop s' = 0 \<and>
           allocated s' = allocated s \<and> length (heap s') = length (heap s)"
proof -
  let ?s' = "s\<lparr>head := below_top s, to_be_deleted := None,
               heap := free_cells (top_cell s @ ps) (heap s),
               freed := freed s + length (top_cell s) + length ps\<rparr>"
  from assms(1) have pl: "pending_list s ps" and d: "distinct ps"
    by (simp_all add: stack_inv_def)
  have "pop 0 s = Inr (top_value s, ?s')"
    using assms(3) pl d stack_inv_head [OF assms(1)] by (rule pop_sole_quiet)
  moreover have "stack_inv ?s' (tl ms) []"
    by (rule stack_inv_pop_sole_quiet [OF assms(1)]) simp_all
  moreover have "no_leak ?s' (tl ms) []"
    by (rule no_leak_pop_sole_quiet [OF assms(1,2)]) simp_all
  ultimately show ?thesis
    using assms(3) by (intro exI [of _ ?s']) simp
qed

lemma destroy_spec:
  assumes "stack_inv s ms ps" and "no_leak s ms ps" and "threads_in_pop s = 0"
  shows "\<exists>s'. destroy s = Inr s' \<and> stack_inv s' [] [] \<and> no_leak s' [] [] \<and>
           allocated s' = allocated s \<and> length (heap s') = length (heap s)"
  using assms
proof (induction ms arbitrary: s ps)
  case Nil
  from pop_sole_quiet_frame [OF Nil] obtain s'
    where p: "pop 0 s = Inr (top_value s, s')" and r: "stack_inv s' [] []" "no_leak s' [] []"
      "allocated s' = allocated s" "length (heap s') = length (heap s)"
    by auto
  have "top_value s = None"
    using stack_inv_top(3) [OF Nil(1)] by simp
  with p have "destroy s = Inr s'"
    by (subst destroy.simps) simp
  with r show ?case by simp
next
  case (Cons a ms)
  from pop_sole_quiet_frame [OF Cons.prems] obtain s1
    where p: "pop 0 s = Inr (top_value s, s1)" and i: "stack_inv s1 ms []"
      and l: "no_leak s1 ms []" and c: "threads_in_pop s1 = 0"
      and f: "allocated s1 = allocated s" "length (heap s1) = length (heap s)"
    by auto
  have "top_value s = cell_data (heap s) a"
    using stack_inv_top(3) [OF Cons.prems(1)] by simp
  moreover have "cell_data (heap s) a \<noteq> None"
    using Cons.prems(1) by (simp add: stack_inv_iff)
  ultimately obtain v where "top_value s = Some v"
    by auto
  with p have "destroy s = destroy s1"
    by (subst destroy.simps) simp
  with Cons.IH [OF i l c] f show ?case
    by simp
qed

lemma push_preserves:
  assumes "stack_inv s ms ps"
  shows "\<exists>ms' ps'. stack_inv (final_state (push v s)) ms' ps' \<and>
           (no_leak s ms ps \<longrightarrow> no_leak (final_state (push v s)) ms' ps')"
proof (cases "alloc_addr (heap s)")
  case None
  with assms show ?thesis by (auto simp: push_eq)
next
  case (Some a)
  let ?s' = "s\<lparr>heap := (heap s)[a := Some \<lparr>data = Some v, next = head s\<rparr>],
               allocated := Suc (allocated s), head := Some a\<rparr>"
  have "stack_inv ?s' (a # ms) ps"
    by (rule stack_inv_push [OF assms Some]) simp_all
  moreover have "no_leak ?s' (a # ms) ps" if "no_leak s ms ps"
    by (rule no_leak_push [OF that]) simp_all
  ultimately show ?thesis
    using Some by (auto simp: push_eq)
qed

lemma pop_alone_preserves:
  assumes "stack_inv s ms ps" and "threads_in_pop s = 0"
  shows "\<exists>ms' ps'. stack_inv (final_state (pop entered s)) ms' ps' \<and>
           (no_leak s ms ps \<longrightarrow> no_leak (final_state (pop entered s)) ms' ps')"
proof -
  from assms(1) have pl: "pending_list s ps" and d: "distinct ps"
    by (simp_all add: stack_inv_def)
  show ?thesis
  proof (cases "entered = 0")
    case True
    let ?s' = "s\<lparr>head := below_top s, to_be_deleted := None,
                 heap := free_cells (top_cell s @ ps) (heap s),
                 freed := freed s + length (top_cell s) + length ps\<rparr>"
    have "pop 0 s = Inr (top_value s, ?s')"
      using assms(2) pl d stack_inv_head [OF assms(1)] by (rule pop_sole_quiet)
    moreover have "stack_inv ?s' (tl ms) []"
      by (rule stack_inv_pop_sole_quiet [OF assms(1)]) simp_all
    moreover have "no_leak ?s' (tl ms) []" if "no_leak s ms ps"
      by (rule no_leak_pop_sole_quiet [OF assms(1) that]) simp_all
    ultimately show ?thesis
      using True by auto
  next
    case False
    let ?s' = "s\<lparr>head := below_top s, threads_in_pop := int entered,
                 heap := free_cells (top_cell s) (heap s),
                 freed := freed s + length (top_cell s)\<rparr>"
    from False have "0 < entered" by simp
    with assms(2) pl d stack_inv_head [OF assms(1)]
    have "pop entered s = Inr (top_value s, ?s')"
      by (rule pop_sole_entered)
    moreover have "stack_inv ?s' (tl ms) ps"
      by (rule stack_inv_pop_sole_entered [OF assms(1)]) simp_all
    moreover have "no_leak ?s' (tl ms) ps" if "no_leak s ms ps"
      by (rule no_leak_pop_sole_entered [OF assms(1) that]) simp_all
    ultimately show ?thesis
      by auto
  qed
qed

text \<open>
  On one thread, from zeroed storage: the states are well formed, and the counter is zero
  between the calls.
\<close>

lemma well_formed_alone:
  "well_formed (LockFreeStack (storage capacity 0 None))"
  "well_formed s \<Longrightarrow> well_formed (final_state (push v s))"
  "well_formed s \<Longrightarrow> threads_in_pop s = 0 \<Longrightarrow> well_formed (final_state (pop entered s))"
proof -
  show "well_formed (LockFreeStack (storage capacity 0 None))"
    unfolding well_formed_def using stack_inv_fresh no_leak_fresh by blast
  show "well_formed (final_state (push v s))" if "well_formed s"
    using that push_preserves [of s _ _ v] unfolding well_formed_def by blast
  show "well_formed (final_state (pop entered s))" if "well_formed s" "threads_in_pop s = 0"
    using that pop_alone_preserves [of s _ _ entered] unfolding well_formed_def by blast
qed

subsection \<open>The counter of pops in flight\<close>

lemma pop_counter_balance:
  assumes "stack_inv s ms ps" and "head s \<noteq> None \<or> threads_in_pop s = 0"
  shows "\<exists>r s'. pop entered s = Inr (r, s') \<and>
           threads_in_pop s' =
             threads_in_pop s + (if threads_in_pop s = 0 then int entered else 0)"
proof (cases "threads_in_pop s = 0")
  case True
  from assms(1) have pl: "pending_list s ps" and d: "distinct ps"
    by (simp_all add: stack_inv_def)
  show ?thesis
  proof (cases "entered = 0")
    case e: True
    from pop_sole_quiet [OF True pl d stack_inv_head [OF assms(1)]] True e show ?thesis
      by simp
  next
    case False
    then have "0 < entered" by simp
    from pop_sole_entered [OF True pl d stack_inv_head [OF assms(1)] this] True show ?thesis
      by simp
  qed
next
  case False
  with assms(2) obtain a where h: "head s = Some a" by auto
  with assms(1) obtain as where ms: "ms = a # as" and p: "path (heap s) (Some a) (a # as)"
    and d: "distinct (a # as)"
    by (cases ms) (auto simp: stack_inv_iff)
  from pop_defer [OF False p d h, of entered] False show ?thesis
    by auto
qed

text \<open>A fresh stack whose counter was not zero in the storage: the first pop faults.\<close>

lemma pop_fresh_unset:
  "k \<noteq> 0 \<Longrightarrow>
   pop 0 (LockFreeStack (storage c k p)) =
     Inl (NullDereference, (LockFreeStack (storage c k p))\<lparr>threads_in_pop := k + 1\<rparr>)"
  using pop_defer_empty [of "LockFreeStack (storage c k p)" 0]
  by (simp add: LockFreeStack_def storage_def)

lemma path_unique: "path h p as \<Longrightarrow> path h p bs \<Longrightarrow> as = bs"
proof (induction as arbitrary: p bs)
  case Nil
  then show ?case by (cases bs) auto
next
  case (Cons a as)
  then show ?case by (cases bs) (auto split: option.splits)
qed

text \<open>
  What holds when the storage of the object was zeroed and one thread calls: the pops
  return what was pushed in reverse order and then the empty handle, a pop on the new
  stack changes nothing, and the destructor frees every node of a well-formed state.
\<close>

lemma lifo_zeroed:
  assumes "length vs \<le> capacity"
  shows "\<exists>s s'. pushes vs (LockFreeStack (storage capacity 0 None)) = Inr ((), s) \<and>
           pops (Suc (length vs)) s = Inr (map Some (rev vs) @ [None], s')"
proof -
  let ?s0 = "LockFreeStack (storage capacity 0 None) :: 'a stack"
  have "length vs + length ([] :: addr list) + length ([] :: addr list) \<le> length (heap ?s0)"
    using assms by (simp add: LockFreeStack_def storage_def)
  from pushes_spec [OF stack_inv_fresh no_leak_fresh this] obtain as s
    where p: "pushes vs ?s0 = Inr ((), s)" and i: "stack_inv s as []"
      and m: "map (cell_data (heap s)) as = map Some (rev vs)"
      and c: "threads_in_pop s = 0"
    by (auto simp: LockFreeStack_def storage_def)
  from m have "length as = length vs"
    by (metis length_map length_rev)
  with pops_drain [OF i c] m p show ?thesis
    by auto
qed

lemma empty_pop_zeroed:
  "pop 0 (LockFreeStack (storage capacity 0 None)) = Inr (None, LockFreeStack (storage capacity 0 None)) \<and>
   pops n (LockFreeStack (storage capacity 0 None)) = Inr (replicate n None, LockFreeStack (storage capacity 0 None))"
  by (induction n) (simp_all add: pop_fresh)

lemma teardown_well_formed:
  assumes "well_formed s" and "threads_in_pop s = 0"
  shows "\<exists>s'. destroy s = Inr s' \<and> freed s' = allocated s' \<and> allocated s' = allocated s \<and>
           head s' = None \<and> to_be_deleted s' = None \<and>
           list_all (\<lambda>c. c = None) (heap s') \<and> length (heap s') = length (heap s)"
proof -
  from assms(1) obtain ms ps where "stack_inv s ms ps" and "no_leak s ms ps"
    unfolding well_formed_def by blast
  from destroy_spec [OF this assms(2)] obtain s'
    where d: "destroy s = Inr s'" and i: "stack_inv s' [] []" and l: "no_leak s' [] []"
      and f: "allocated s' = allocated s" "length (heap s') = length (heap s)"
    by blast
  from l have e: "\<forall>a. lookup (heap s') a = None" and "allocated s' = freed s'"
    by (simp_all add: no_leak_iff)
  have "heap s' ! a = None" if "a < length (heap s')" for a
    using e [rule_format, of a] that by (simp add: lookup_def)
  then have "list_all (\<lambda>c. c = None) (heap s')"
    by (simp add: list_all_length)
  moreover have "freed s' = allocated s'"
    using \<open>allocated s' = freed s'\<close> by simp
  moreover have "head s' = None" and "to_be_deleted s' = None"
    using i by (simp_all add: stack_inv_iff)
  ultimately show ?thesis
    using d f by simp
qed

lemma lifo_zeroed_example:
  "length [1, 2, 3 :: nat] \<le> 3 \<and>
   (\<exists>s s'. pushes [1, 2, 3 :: nat] (LockFreeStack (storage 3 0 None)) = Inr ((), s) \<and>
      pops 4 s = Inr ([Some 3, Some 2, Some 1, None], s'))"
proof -
  have "Suc (length [1, 2, 3 :: nat]) = 4" and "map Some (rev [1, 2, 3 :: nat]) @ [None] = [Some 3, Some 2, Some 1, None]"
    by simp_all
  with lifo_zeroed [of "[1, 2, 3 :: nat]" 3] show ?thesis
    by (simp only: length_Cons list.size le_refl simp_thms numeral_3_eq_3)
qed

lemma teardown_quiescent_example:
  "well_formed quiescent_example \<and> threads_in_pop quiescent_example = 0 \<and>
   main_list quiescent_example [1, 0] \<and> pending_list quiescent_example [2, 3] \<and>
   (\<exists>s'. destroy quiescent_example = Inr s' \<and> freed s' = 9 \<and> allocated s' = 9 \<and>
      head s' = None \<and> to_be_deleted s' = None \<and> heap s' = [None, None, None, None, None])"
proof -
  have "stack_inv quiescent_example [1, 0] [2, 3]" "no_leak quiescent_example [1, 0] [2, 3]"
    by (simp_all add: quiescent_example_def stack_inv_def no_leak_def main_list_def
        pending_list_def cell_data_def lookup_def upt_rec)
  then have w: "well_formed quiescent_example"
    unfolding well_formed_def by blast
  have h: "threads_in_pop quiescent_example = 0" "main_list quiescent_example [1, 0]"
    "pending_list quiescent_example [2, 3]"
    by (simp_all add: quiescent_example_def main_list_def pending_list_def lookup_def)
  from teardown_well_formed [OF w h(1)] obtain s'
    where s': "destroy quiescent_example = Inr s'" "freed s' = allocated s'"
      "allocated s' = allocated quiescent_example" "head s' = None" "to_be_deleted s' = None"
      "list_all (\<lambda>c. c = None) (heap s')" "length (heap s') = length (heap quiescent_example)"
    by blast
  from s'(6,7) have "heap s' = [None, None, None, None, None]"
    by (auto simp: quiescent_example_def length_Suc_conv)
  with s' h w show ?thesis
    by (simp add: quiescent_example_def)
qed

section \<open>The claims of the specification\<close>

text \<open>
  C3.  The constructor should yield an empty stack with an empty pending-deletion list
  and the counter of pops in flight at zero.  The code sets \<^verbatim>\<open>head\<close> to null and leaves
  the other two members as the storage has them: with the counter bytes reading 7 and the
  pointer bytes reading the address 0, the counter is 7 after construction and
  \<^verbatim>\<open>to_be_deleted\<close> points at a cell that holds no node.
\<close>

theorem construct_leaves_members_unset:
  "head (LockFreeStack raw) = None \<and>
   threads_in_pop (LockFreeStack raw) = threads_in_pop raw \<and>
   to_be_deleted (LockFreeStack raw) = to_be_deleted raw \<and>
   threads_in_pop (LockFreeStack (storage 1 7 (Some 0)) :: nat stack) = 7 \<and>
   to_be_deleted (LockFreeStack (storage 1 7 (Some 0)) :: nat stack) = Some 0 \<and>
   lookup (heap (LockFreeStack (storage 1 7 (Some 0)) :: nat stack)) 0 = None"
  by (simp add: LockFreeStack_def storage_def lookup_def)

text \<open>
  C5.  A pop on a freshly constructed stack should return the empty handle and leave the
  state as it was, any number of times.  With the counter bytes of the storage reading 7
  the first pop raises the counter to 8 and dereferences \<^verbatim>\<open>nullptr\<close>.
\<close>

theorem first_pop_faults_on_unset_counter:
  "pop 0 (LockFreeStack (storage 1 7 None) :: nat stack) =
     Inl (NullDereference,
          \<lparr>head = None, to_be_deleted = None, threads_in_pop = 8, heap = [None],
           allocated = 0, freed = 0\<rparr>)"
  using pop_fresh_unset [of 7 1 None]
  by (simp add: LockFreeStack_def storage_def)

text \<open>
  C1.  After pushes of \<open>v\<^sub>1, \<dots>, v\<^sub>n\<close> on a freshly constructed stack, \<open>n\<close> pops should
  return \<open>v\<^sub>n, \<dots>, v\<^sub>1\<close> and the next pop the empty handle.  With the counter bytes of
  the storage reading 7: after a push of 1 the first pop returns 1 and the second
  dereferences \<^verbatim>\<open>nullptr\<close>; after pushes of 1, 2, 3 the pops return 3 and 2 and the third
  pop never ends, for the two pops before it have chained the nodes into a cycle.
\<close>

theorem lifo_breaks_on_unset_counter:
  "pushes [1] (LockFreeStack (storage 1 7 None) :: nat stack) = Inr ((), unset_one_pushed) \<and>
   pop 0 unset_one_pushed = Inr (Some 1, unset_one_popped) \<and>
   pop 0 unset_one_popped =
     Inl (NullDereference, unset_one_popped\<lparr>threads_in_pop := 8\<rparr>) \<and>
   pushes [1, 2, 3] (LockFreeStack (storage 3 7 None) :: nat stack) =
     Inr ((), unset_three_pushed) \<and>
   pops 2 unset_three_pushed = Inr ([Some 3, Some 2], unset_two_popped) \<and>
   pop 0 unset_two_popped =
     Inl (NonTermination,
          \<lparr>head = Some 2, to_be_deleted = Some 1, threads_in_pop = 8,
           heap = [Some \<lparr>data = None, next = Some 2\<rparr>, Some \<lparr>data = None, next = Some 0\<rparr>,
                   Some \<lparr>data = None, next = Some 1\<rparr>],
           allocated = 3, freed = 0\<rparr>)"
  by code_simp

text \<open>
  C6.  Allocation failure: \<^verbatim>\<open>push\<close> raises \<open>AllocationFailure\<close> exactly when the
  allocator has no cell for the new node, and then the state is the one it was called in;
  when there is a cell, \<^verbatim>\<open>push\<close> returns.  Neither \<^verbatim>\<open>pop\<close> nor the destructor raises
  \<open>AllocationFailure\<close>.
\<close>

theorem allocation_failure_only_in_push:
  "push v s =
     (case alloc_addr (heap s) of
        None \<Rightarrow> Inl (AllocationFailure, s)
      | Some a \<Rightarrow>
          Inr ((), s\<lparr>heap := (heap s)[a := Some \<lparr>data = Some v, next = head s\<rparr>],
                      allocated := Suc (allocated s), head := Some a\<rparr>)) \<and>
   pop entered s \<noteq> Inl (AllocationFailure, s') \<and>
   destroy s \<noteq> Inl (AllocationFailure, s')"
  using pop_error [of entered s AllocationFailure s'] destroy_error [of s AllocationFailure s']
  by (auto simp: push_eq)






text \<open>
  C7.  After a teardown with no other thread at work the number of nodes freed should
  equal the number of nodes allocated.  With the counter bytes of the storage reading 7,
  the destructor of a stack that holds one value pops it, parks its node and then
  dereferences \<^verbatim>\<open>nullptr\<close>: one node allocated, none freed.  From zeroed storage,
  \<open>crossed_example\<close> is what two pops leave that both found the counter at two: the
  destructor frees both nodes and then reads a freed node again.
\<close>

theorem teardown_faults:
  "push 1 (LockFreeStack (storage 1 7 None) :: nat stack) = Inr ((), unset_one_pushed) \<and>
   destroy unset_one_pushed =
     Inl (NullDereference, unset_one_popped\<lparr>threads_in_pop := 8\<rparr>) \<and>
   allocated (unset_one_popped\<lparr>threads_in_pop := 8\<rparr>) = 1 \<and>
   freed (unset_one_popped\<lparr>threads_in_pop := 8\<rparr>) = 0 \<and>
   threads_in_pop crossed_example = 0 \<and>
   destroy crossed_example =
     Inl (InvalidPointer,
          \<lparr>head = None, to_be_deleted = None, threads_in_pop = 0, heap = [None, None],
           allocated = 2, freed = 2\<rparr>)"
  by code_simp

text \<open>
  C8.  Construction, \<^verbatim>\<open>push\<close> and \<^verbatim>\<open>pop\<close> should keep the invariant: no node on both
  lists, a value in every node of the main list, none in a node of the pending-deletion
  list.  A pop that finds another pop in flight breaks it: on \<open>contended_example\<close>, which
  has the invariant, it returns 7 and leaves the nodes 0 and 2 on both lists, node 0 on
  the pending-deletion list with its value.  Construction breaks it when the pointer
  bytes of the storage are not null.
\<close>

theorem pop_breaks_invariant:
  "invariant contended_example \<and>
   pop 0 contended_example = Inr (Some 7, spliced_example) \<and>
   main_list spliced_example [0, 2] \<and> pending_list spliced_example [1, 0, 2] \<and>
   cell_data (heap spliced_example) 0 = Some 5 \<and>
   \<not> invariant spliced_example \<and>
   \<not> invariant (LockFreeStack (storage 1 0 (Some 0)) :: nat stack)"
proof -
  have "stack_inv contended_example [1, 0] [2]"
    by (simp add: contended_example_def stack_inv_def main_list_def pending_list_def
        cell_data_def lookup_def)
  then have i: "invariant contended_example"
    unfolding invariant_def by blast
  have p: "pop 0 contended_example = Inr (Some 7, spliced_example)"
    by code_simp
  have m: "main_list spliced_example [0, 2]" and q: "pending_list spliced_example [1, 0, 2]"
    and c: "cell_data (heap spliced_example) 0 = Some 5"
    by (simp_all add: spliced_example_def main_list_def pending_list_def cell_data_def
        lookup_def)
  have n: "\<not> invariant spliced_example"
  proof
    assume "invariant spliced_example"
    then obtain ms ps where s: "stack_inv spliced_example ms ps"
      unfolding invariant_def by blast
    then have ms: "main_list spliced_example ms" and ps: "pending_list spliced_example ps"
      by (simp_all add: stack_inv_def)
    have "ms = [0, 2]"
      using ms m unfolding main_list_def by (rule path_unique)
    moreover have "ps = [1, 0, 2]"
      using ps q unfolding pending_list_def by (rule path_unique)
    ultimately show False
      using s by (simp add: stack_inv_def)
  qed
  have "\<not> invariant (LockFreeStack (storage 1 0 (Some 0)) :: nat stack)"
  proof
    assume "invariant (LockFreeStack (storage 1 0 (Some 0)) :: nat stack)"
    then obtain ps where "pending_list (LockFreeStack (storage 1 0 (Some 0)) :: nat stack) ps"
      unfolding invariant_def stack_inv_def by blast
    then show False
      by (cases ps) (simp_all add: pending_list_def LockFreeStack_def storage_def lookup_def)
  qed
  with i p m q c n show ?thesis
    by blast
qed

text \<open>
  C9.  Counter balance: every pop should increment the counter once at entry and
  decrement it once before it returns.  On an empty stack with another pop in flight the
  code does not: the pop increments the counter and then dereferences \<^verbatim>\<open>nullptr\<close> in
  \<^verbatim>\<open>chain_pending_nodes\<close>, under either body of that function, before the decrement of
  line 36, so the counter stays raised.
\<close>

theorem pop_leaves_counter_raised:
  "pop 0 ((LockFreeStack (storage 1 0 None) :: nat stack)\<lparr>threads_in_pop := 1\<rparr>) =
     Inl (NullDereference, (LockFreeStack (storage 1 0 None))\<lparr>threads_in_pop := 2\<rparr>) \<and>
   chain_pending_nodes_one None
       ((LockFreeStack (storage 1 0 None) :: nat stack)\<lparr>threads_in_pop := 2\<rparr>) =
     Inl (NullDereference, (LockFreeStack (storage 1 0 None))\<lparr>threads_in_pop := 2\<rparr>) \<and>
   chain_pending_nodes None
       ((LockFreeStack (storage 1 0 None) :: nat stack)\<lparr>threads_in_pop := 2\<rparr>) =
     Inl (NullDereference, (LockFreeStack (storage 1 0 None))\<lparr>threads_in_pop := 2\<rparr>)"
  using pop_defer_empty [of "(LockFreeStack (storage 1 0 None) :: nat stack)\<lparr>threads_in_pop := 1\<rparr>" 0]
  by (simp add: LockFreeStack_def storage_def chain_pending_nodes_null
      chain_pending_nodes_one_def chain_pending_nodes_range_def store_next_def)

end
